theory Spec2Isabelle
  imports Complex_Main "HOL-Library.Monad_Syntax"
begin

section \<open>The numeric kernel\<close>

text \<open>
  The programs compute with \<^verbatim>\<open>mpmath.mpf\<close> values at a precision of 1000 decimal digits
  (and, in the two R2 files, with machine floats).  The properties verified here are those
  of the algorithms under exact arithmetic, so a kernel value is a rational number and every
  kernel operation is the exact one.  Python integers are unbounded and are modelled by
  \<^typ>\<open>int\<close>.  An exception is a value of type \<open>error\<close>, returned in \<open>Inl\<close>.
\<close>

type_synonym mpf = rat

datatype error = TypeError | ZeroDivisionError | ValueError

text \<open>\<^verbatim>\<open>power(x, e)\<close>, \<^verbatim>\<open>x ** e\<close> with an integer exponent: \<open>x ** 0\<close> is \<open>1\<close> for every \<open>x\<close>,
  a negative exponent inverts, and inverting zero raises.\<close>

definition mp_power :: "mpf \<Rightarrow> int \<Rightarrow> error + mpf" where
  "mp_power x e = (if x = 0 \<and> e < 0 then Inl ZeroDivisionError else Inr (x powi e))"

text \<open>\<^verbatim>\<open>x / y\<close> on kernel values raises on a zero divisor.\<close>

definition mp_div :: "mpf \<Rightarrow> mpf \<Rightarrow> error + mpf" where
  "mp_div x y = (if y = 0 then Inl ZeroDivisionError else Inr (x / y))"

text \<open>\<^verbatim>\<open>factorial(j)\<close>, \<^verbatim>\<open>fac(j)\<close> at an integer: the gamma function has a pole at every
  negative integer's successor, where the kernel raises.\<close>

definition mp_factorial :: "int \<Rightarrow> error + mpf" where
  "mp_factorial j = (if j < 0 then Inl ValueError else Inr (fact (nat j)))"

text \<open>\<^verbatim>\<open>binomial(a, j)\<close> with an integer lower argument: the generalised binomial coefficient,
  which is the ordinary one when \<open>a\<close> is a natural number.  The programs reach a negative
  lower argument only in a term whose factorial raises; the value \<open>0\<close> is fixed there.\<close>

definition mp_binomial :: "mpf \<Rightarrow> int \<Rightarrow> mpf" where
  "mp_binomial a j = (if j < 0 then 0 else a gchoose nat j)"

section \<open>The direct formula (\<^verbatim>\<open>sbp_implementation.py\<close>)\<close>

text \<open>One summand of the loop body of \<^verbatim>\<open>prob\<close>, for the loop index \<open>j\<close>.\<close>

definition prob_term :: "int \<Rightarrow> int \<Rightarrow> int \<Rightarrow> int \<Rightarrow> error + mpf" where
  "prob_term m n k j =
     (let sign = (- 1) powi (j - k);
          binom_j_k = mp_binomial (of_int j) k;
          binom_m_j = mp_binomial (of_int m) j;
          binom_n_j = mp_binomial (of_int n) j
      in case mp_factorial j of
           Inl e \<Rightarrow> Inl e
         | Inr j_factorial \<Rightarrow>
             (case (if n - j > 0 then mp_power (of_int m - of_int j) (n - j) else Inr 1) of
                Inl e \<Rightarrow> Inl e
              | Inr power_term \<Rightarrow>
                  Inr (sign * binom_j_k * binom_m_j * binom_n_j * j_factorial * power_term)))"

text \<open>The \<^verbatim>\<open>for j in range(k_int, n_int + 1)\<close> loop, over the list of its indices, with the
  accumulator \<^verbatim>\<open>sum_result\<close>.\<close>

fun prob_loop :: "int \<Rightarrow> int \<Rightarrow> int \<Rightarrow> int list \<Rightarrow> mpf \<Rightarrow> error + mpf" where
  "prob_loop m n k [] sum_result = Inr sum_result"
| "prob_loop m n k (j # js) sum_result =
     (case prob_term m n k j of
        Inl e \<Rightarrow> Inl e
      | Inr term \<Rightarrow> prob_loop m n k js (sum_result + term))"

definition prob :: "int \<Rightarrow> int \<Rightarrow> int \<Rightarrow> error + mpf" where
  "prob m n k =
     (case mp_power (of_int m) n of
        Inl e \<Rightarrow> Inl e
      | Inr denominator \<Rightarrow>
          (case prob_loop m n k [k..n] 0 of
             Inl e \<Rightarrow> Inl e
           | Inr sum_result \<Rightarrow> mp_div sum_result denominator))"

text \<open>The contract of the direct formula as the specification words it: \<open>m\<^sup>-\<^sup>n\<close> times the
  alternating sum over \<open>j = k, \<dots>, n\<close>, the last factor being exactly \<open>1\<close> whenever the
  exponent \<open>n - j\<close> is \<open>0\<close>.\<close>

definition prob_formula :: "int \<Rightarrow> int \<Rightarrow> int \<Rightarrow> rat" where
  "prob_formula m n k =
     (1 / of_int m ^ nat n) *
     (\<Sum>j = k..n. (- 1) ^ nat (j - k) * of_nat (nat j choose nat k) * of_nat (nat m choose nat j)
        * of_nat (nat n choose nat j) * fact (nat j)
        * (if n - j = 0 then 1 else (of_int m - of_int j) ^ nat (n - j)))"

section \<open>The occupancy recurrence, memoized (\<^verbatim>\<open>sbp_r1_recurrence_memoization.py\<close>)\<close>

text \<open>
  The memo table of \<^verbatim>\<open>T\<close> is a dictionary keyed by the 4-tuple \<open>(j, k, n, m)\<close>.  The Python
  function mutates the dictionary it is given; the model returns the table next to the
  value.  The parameter \<^verbatim>\<open>memo=None\<close> is an \<open>option\<close>: \<open>None\<close> is the omitted argument, for
  which a fresh table is allocated.  The two base cases return without storing.
  The depth of the host's call stack is not modelled.
\<close>

type_synonym T_memo = "int \<times> int \<times> int \<times> int \<rightharpoonup> mpf"

function T :: "int \<Rightarrow> int \<Rightarrow> int \<Rightarrow> int \<Rightarrow> T_memo option \<Rightarrow> mpf \<times> T_memo" where
  "T j k n m memo_arg =
     (let memo = (case memo_arg of None \<Rightarrow> Map.empty | Some d \<Rightarrow> d);
          key = (j, k, n, m)
      in case memo key of
           Some v \<Rightarrow> (v, memo)
         | None \<Rightarrow>
             if j < 0 \<or> k < 0 \<or> n < 2 * j + k \<or> m < j + k then (0, memo)
             else if j = 0 \<and> k = 0 \<and> n = 0 then (1, memo)
             else
               let (t1, memo1) = T j k (n - 1) m (Some memo);
                   term1 = of_int j * t1;
                   (t2, memo2) = T (j - 1) (k + 1) (n - 1) m (Some memo1);
                   term2 = of_int (k + 1) * t2;
                   (t3, memo3) = T j (k - 1) (n - 1) m (Some memo2);
                   term3 = of_int (m - j - k + 1) * t3;
                   result = term1 + term2 + term3
               in (result, memo3(key \<mapsto> result)))"
  by pat_completeness auto
termination
  by (relation "measure (\<lambda>(j, k, n, m, memo_arg). nat n)") auto

declare T.simps [simp del]

text \<open>The \<^verbatim>\<open>for j in range(1, max_j + 1)\<close> loop of \<^verbatim>\<open>prob_r1\<close>: one memo table is shared by
  all calls, \<^verbatim>\<open>N\<close> accumulates.\<close>

fun prob_r1_loop :: "int \<Rightarrow> int \<Rightarrow> int list \<Rightarrow> T_memo \<Rightarrow> mpf \<Rightarrow> mpf \<times> T_memo" where
  "prob_r1_loop m n [] memo N = (N, memo)"
| "prob_r1_loop m n (j # js) memo N =
     (let (term, memo') = T j 0 n m (Some memo)
      in prob_r1_loop m n js memo' (N + term))"

definition prob_r1 :: "int \<Rightarrow> int \<Rightarrow> error + mpf" where
  "prob_r1 m n =
     (let max_j = n div 2;
          (N, memo) = prob_r1_loop m n [1..max_j] Map.empty 0
      in case mp_power (of_int m) n of
           Inl e \<Rightarrow> Inl e
         | Inr denominator \<Rightarrow> mp_div N denominator)"

section \<open>The occupancy recurrence, bottom-up (\<^verbatim>\<open>sbp_r1_recurrence_bottomup.py\<close>)\<close>

text \<open>A layer is the sparse dictionary of one value of \<open>n\<close>, keyed by \<open>(j, k)\<close>.\<close>

type_synonym layer = "int \<times> int \<rightharpoonup> mpf"

text \<open>The body of the innermost loop: the validity test (\<^verbatim>\<open>continue\<close>), the three guarded
  terms read from \<^verbatim>\<open>prev\<close>, and the store of a non-zero result into \<^verbatim>\<open>curr\<close>.\<close>

definition T_cell :: "int \<Rightarrow> int \<Rightarrow> layer \<Rightarrow> int \<Rightarrow> int \<Rightarrow> layer \<Rightarrow> layer" where
  "T_cell m_int n prev j k cur =
     (if n < 2 * j + k \<or> m_int < j + k then cur
      else
        let result = 0;
            result = (case prev (j, k) of
                        Some v \<Rightarrow> result + of_int j * v
                      | None \<Rightarrow> result);
            result = (if j > 0 then
                        (case prev (j - 1, k + 1) of
                           Some v \<Rightarrow> result + of_int (k + 1) * v
                         | None \<Rightarrow> result)
                      else result);
            result = (if k > 0 then
                        (case prev (j, k - 1) of
                           Some v \<Rightarrow> result + of_int (m_int - j - k + 1) * v
                         | None \<Rightarrow> result)
                      else result)
        in if result \<noteq> 0 then cur((j, k) \<mapsto> result) else cur)"

text \<open>One iteration of the loop over \<open>n\<close>: a fresh \<^verbatim>\<open>curr\<close>, filled by the two nested loops
  over \<open>j = 0, \<dots>, n // 2\<close> and \<open>k = 0, \<dots>, min(n, m)\<close>.\<close>

definition T_layer :: "int \<Rightarrow> int \<Rightarrow> layer \<Rightarrow> layer" where
  "T_layer m_int n prev =
     (let max_k = min n m_int;
          max_j = n div 2
      in fold (\<lambda>j. fold (\<lambda>k. T_cell m_int n prev j k) [0..max_k]) [0..max_j] Map.empty)"

text \<open>The loop over \<open>n = 1, \<dots>, n_target\<close> on the pair \<^verbatim>\<open>(prev, curr)\<close>; the function
  returns \<^verbatim>\<open>curr\<close>, which is the empty dictionary when the loop never runs.\<close>

definition T_bottomup :: "int \<Rightarrow> int \<Rightarrow> layer" where
  "T_bottomup n_target m =
     snd (fold (\<lambda>n (prev, cur). let cur = T_layer m n prev in (cur, cur))
            [1..n_target] (Map.empty((0, 0) \<mapsto> 1), Map.empty))"

fun prob_r1_bottomup_loop :: "layer \<Rightarrow> int list \<Rightarrow> mpf \<Rightarrow> mpf" where
  "prob_r1_bottomup_loop T_values [] N = N"
| "prob_r1_bottomup_loop T_values (j # js) N =
     (case T_values (j, 0) of
        Some v \<Rightarrow> prob_r1_bottomup_loop T_values js (N + v)
      | None \<Rightarrow> prob_r1_bottomup_loop T_values js N)"

definition prob_r1_bottomup :: "int \<Rightarrow> int \<Rightarrow> error + mpf" where
  "prob_r1_bottomup m n =
     (let T_values = T_bottomup n m;
          max_j = n div 2;
          N = prob_r1_bottomup_loop T_values [1..max_j] 0
      in case mp_power (of_int m) n of
           Inl e \<Rightarrow> Inl e
         | Inr denominator \<Rightarrow> mp_div N denominator)"

section \<open>The probability recurrence, memoized
  (\<^verbatim>\<open>sbp_r2_probability_recurrence_memoization_float.py\<close>)\<close>

text \<open>
  The R2 programs use machine floats.  Their model is the exact-arithmetic reading of
  the same code: a float is a rational number, \<^verbatim>\<open>1.0 / m\<close> raises at \<open>m = 0\<close>, and
  rounding, overflow and underflow are not modelled.
\<close>

type_synonym pyfloat = rat

type_synonym P_memo = "int \<times> int \<times> int \<times> int \<rightharpoonup> pyfloat"

function P :: "int \<Rightarrow> int \<Rightarrow> int \<Rightarrow> int \<Rightarrow> P_memo option \<Rightarrow> error + pyfloat \<times> P_memo" where
  "P j k n m memo_arg =
     (let memo = (case memo_arg of None \<Rightarrow> Map.empty | Some d \<Rightarrow> d);
          key = (j, k, n, m)
      in case memo key of
           Some v \<Rightarrow> Inr (v, memo)
         | None \<Rightarrow>
             if j < 0 \<or> k < 0 \<or> n < 2 * j + k \<or> m < j + k then Inr (0, memo)
             else if j = 0 \<and> k = 0 \<and> n = 0 then Inr (1, memo)
             else
               (case mp_div 1 (of_int m) of
                  Inl e \<Rightarrow> Inl e
                | Inr m_inv \<Rightarrow>
               (case P j k (n - 1) m (Some memo) of
                  Inl e \<Rightarrow> Inl e
                | Inr (p1, memo1) \<Rightarrow>
               (case P (j - 1) (k + 1) (n - 1) m (Some memo1) of
                  Inl e \<Rightarrow> Inl e
                | Inr (p2, memo2) \<Rightarrow>
               (case P j (k - 1) (n - 1) m (Some memo2) of
                  Inl e \<Rightarrow> Inl e
                | Inr (p3, memo3) \<Rightarrow>
                    let term1 = of_int j * p1;
                        term2 = of_int (k + 1) * p2;
                        term3 = of_int (m - j - k + 1) * p3;
                        sum_terms = term1 + term2 + term3;
                        result = m_inv * sum_terms
                    in Inr (result, memo3(key \<mapsto> result)))))))"
  by pat_completeness auto
termination
  by (relation "measure (\<lambda>(j, k, n, m, memo_arg). nat n)") auto

declare P.simps [simp del]

fun prob_r2_float_loop ::
  "int \<Rightarrow> int \<Rightarrow> int list \<Rightarrow> P_memo \<Rightarrow> pyfloat \<Rightarrow> error + pyfloat" where
  "prob_r2_float_loop m n [] memo result = Inr result"
| "prob_r2_float_loop m n (j # js) memo result =
     (case P j 0 n m (Some memo) of
        Inl e \<Rightarrow> Inl e
      | Inr (term, memo') \<Rightarrow> prob_r2_float_loop m n js memo' (result + term))"

definition prob_r2_float :: "int \<Rightarrow> int \<Rightarrow> error + pyfloat" where
  "prob_r2_float m n = (let max_j = n div 2 in prob_r2_float_loop m n [1..max_j] Map.empty 0)"

section \<open>The probability recurrence, bottom-up (\<^verbatim>\<open>sbp_r2_recurrence_bottomup_float.py\<close>)\<close>

text \<open>The loop body of \<^verbatim>\<open>P_bottomup\<close>: its validity test has no comparison with \<open>m\<close>, and
  the sum of the three terms is multiplied by \<^verbatim>\<open>m_inv\<close> before the test for zero.\<close>

definition P_cell :: "pyfloat \<Rightarrow> int \<Rightarrow> int \<Rightarrow> layer \<Rightarrow> int \<Rightarrow> int \<Rightarrow> layer \<Rightarrow> layer" where
  "P_cell m_inv m n prev j k cur =
     (if n < 2 * j + k then cur
      else
        let result = 0;
            result = (case prev (j, k) of
                        Some v \<Rightarrow> result + of_int j * v
                      | None \<Rightarrow> result);
            result = (if j > 0 then
                        (case prev (j - 1, k + 1) of
                           Some v \<Rightarrow> result + of_int (k + 1) * v
                         | None \<Rightarrow> result)
                      else result);
            result = (if k > 0 then
                        (case prev (j, k - 1) of
                           Some v \<Rightarrow> result + of_int (m - j - k + 1) * v
                         | None \<Rightarrow> result)
                      else result);
            result = result * m_inv
        in if result \<noteq> 0 then cur((j, k) \<mapsto> result) else cur)"

definition P_layer :: "pyfloat \<Rightarrow> int \<Rightarrow> int \<Rightarrow> layer \<Rightarrow> layer" where
  "P_layer m_inv m n prev =
     (let max_j = n div 2;
          max_k = min n m
      in fold (\<lambda>j. fold (\<lambda>k. P_cell m_inv m n prev j k) [0..max_k]) [0..max_j] Map.empty)"

definition P_bottomup :: "int \<Rightarrow> int \<Rightarrow> error + layer" where
  "P_bottomup n_target m =
     (case mp_div 1 (of_int m) of
        Inl e \<Rightarrow> Inl e
      | Inr m_inv \<Rightarrow>
          Inr (snd (fold (\<lambda>n (prev, cur). let cur = P_layer m_inv m n prev in (cur, cur))
                      [1..n_target] (Map.empty((0, 0) \<mapsto> 1), Map.empty))))"

fun prob_r2_bottomup_float_loop :: "layer \<Rightarrow> int list \<Rightarrow> pyfloat \<Rightarrow> pyfloat" where
  "prob_r2_bottomup_float_loop P_values [] result = result"
| "prob_r2_bottomup_float_loop P_values (j # js) result =
     (case P_values (j, 0) of
        Some v \<Rightarrow> prob_r2_bottomup_float_loop P_values js (result + v)
      | None \<Rightarrow> prob_r2_bottomup_float_loop P_values js result)"

definition prob_r2_bottomup_float :: "int \<Rightarrow> int \<Rightarrow> error + pyfloat" where
  "prob_r2_bottomup_float m n =
     (case P_bottomup n m of
        Inl e \<Rightarrow> Inl e
      | Inr P_values \<Rightarrow>
          (let max_j = n div 2
           in Inr (prob_r2_bottomup_float_loop P_values [1..max_j] 0)))"

section \<open>Associated Stirling numbers, memoized (\<^verbatim>\<open>sbp_r3_assoc_stirling_memoization.py\<close>)\<close>

text \<open>
  \<^verbatim>\<open>assoc_stirling\<close> tests \<^verbatim>\<open>(n, k) in memo\<close> first, with no guard for the default
  \<^verbatim>\<open>memo=None\<close>: the membership test on \<^verbatim>\<open>None\<close> raises a type error.  Its validity test
  lets the keys with \<open>n < 0\<close>, \<open>k < 0\<close> and \<open>2k \<le> n\<close> through, from where the recursion
  need not end, so the function is partial: \<open>None\<close> of the outer \<open>option\<close> is a call
  that does not return.
\<close>

type_synonym S_memo = "int \<times> int \<rightharpoonup> mpf"

partial_function (option) assoc_stirling ::
  "int \<Rightarrow> int \<Rightarrow> S_memo option \<Rightarrow> (error + mpf \<times> S_memo) option" where
  "assoc_stirling n k memo_arg =
     (case memo_arg of
        None \<Rightarrow> Some (Inl TypeError)
      | Some memo \<Rightarrow>
          (case memo (n, k) of
             Some v \<Rightarrow> Some (Inr (v, memo))
           | None \<Rightarrow>
               if (n \<le> 0 \<and> k > 0) \<or> (n > 0 \<and> k \<le> 0) \<or> n < 2 * k then Some (Inr (0, memo))
               else if n = 0 \<and> k = 0 then Some (Inr (1, memo))
               else
                 do {
                   r1 \<leftarrow> assoc_stirling (n - 1) k (Some memo);
                   case r1 of
                     Inl e \<Rightarrow> Some (Inl e)
                   | Inr (s1, memo1) \<Rightarrow>
                       do {
                         r2 \<leftarrow> assoc_stirling (n - 2) (k - 1) (Some memo1);
                         case r2 of
                           Inl e \<Rightarrow> Some (Inl e)
                         | Inr (s2, memo2) \<Rightarrow>
                             (let term1 = of_int k * s1;
                                  term2 = of_int (n - 1) * s2;
                                  result = term1 + term2
                              in Some (Inr (result, memo2((n, k) \<mapsto> result))))
                       }
                 }))"

declare assoc_stirling.simps [code]

text \<open>The loop of \<^verbatim>\<open>prob_r3_memo\<close>; a term is added only for a non-zero Stirling value.\<close>

fun prob_r3_memo_loop ::
  "int \<Rightarrow> int \<Rightarrow> int list \<Rightarrow> S_memo \<Rightarrow> mpf \<Rightarrow> (error + mpf) option" where
  "prob_r3_memo_loop m n [] memo tot = Some (Inr tot)"
| "prob_r3_memo_loop m n (k # ks) memo tot =
     (case assoc_stirling n k (Some memo) of
        None \<Rightarrow> None
      | Some (Inl e) \<Rightarrow> Some (Inl e)
      | Some (Inr (stirling_val, memo')) \<Rightarrow>
          if stirling_val \<noteq> 0 then
            (case mp_factorial k of
               Inl e \<Rightarrow> Some (Inl e)
             | Inr fac_k \<Rightarrow>
                 (let term = mp_binomial (of_int m) k * fac_k * stirling_val
                  in prob_r3_memo_loop m n ks memo' (tot + term)))
          else prob_r3_memo_loop m n ks memo' tot)"

definition prob_r3_memo :: "int \<Rightarrow> int \<Rightarrow> (error + mpf) option" where
  "prob_r3_memo m n =
     (let max_k = n div 2
      in case prob_r3_memo_loop m n [1..max_k] Map.empty 0 of
           None \<Rightarrow> None
         | Some (Inl e) \<Rightarrow> Some (Inl e)
         | Some (Inr tot) \<Rightarrow>
             (case mp_power (of_int m) n of
                Inl e \<Rightarrow> Some (Inl e)
              | Inr d \<Rightarrow> Some (mp_div tot d)))"

section \<open>Associated Stirling numbers, bottom-up (\<^verbatim>\<open>sbp_r3_assoc_stirling_bottomup.py\<close>)\<close>

type_synonym row = "int \<rightharpoonup> mpf"

definition S_cell :: "int \<Rightarrow> row \<Rightarrow> row \<Rightarrow> int \<Rightarrow> row \<Rightarrow> row" where
  "S_cell n prev1 prev2 k cur =
     (if n < 2 * k then cur
      else
        let result = 0;
            result = (case prev1 k of
                        Some v \<Rightarrow> result + of_int k * v
                      | None \<Rightarrow> result);
            result = (case prev2 (k - 1) of
                        Some v \<Rightarrow> result + of_int (n - 1) * v
                      | None \<Rightarrow> result)
        in if result \<noteq> 0 then cur(k \<mapsto> result) else cur)"

definition S_row :: "int \<Rightarrow> row \<Rightarrow> row \<Rightarrow> row" where
  "S_row n prev1 prev2 =
     (let max_k = n div 2
      in fold (\<lambda>k. S_cell n prev1 prev2 k) [1..max_k] Map.empty)"

text \<open>The rolling window \<^verbatim>\<open>(prev2, prev1)\<close> over \<open>n = 2, \<dots>, n_target\<close>.  \<^verbatim>\<open>prev1\<close> is bound
  only when \<open>n_target \<ge> 1\<close> and read only when \<open>n_target \<ge> 2\<close>; below that the model's
  empty row stands for the unbound name.  The last line returns \<^verbatim>\<open>prev2\<close>, the row of
  \<open>n = 0\<close>, for every \<open>n_target < 2\<close>.\<close>

definition assoc_stirling_bottomup :: "int \<Rightarrow> row" where
  "assoc_stirling_bottomup n_target =
     (if n_target = 0 then Map.empty(0 \<mapsto> 1)
      else
        let (prev2, prev1) =
              fold (\<lambda>n (prev2, prev1). let cur = S_row n prev1 prev2 in (prev1, cur))
                [2..n_target] (Map.empty(0 \<mapsto> 1), Map.empty)
        in if n_target \<ge> 2 then prev1 else prev2)"

fun prob_r3_bottomup_loop :: "int \<Rightarrow> row \<Rightarrow> int list \<Rightarrow> mpf \<Rightarrow> error + mpf" where
  "prob_r3_bottomup_loop m stirling_values [] tot = Inr tot"
| "prob_r3_bottomup_loop m stirling_values (k # ks) tot =
     (case stirling_values k of
        Some stirling_val \<Rightarrow>
          (case mp_factorial k of
             Inl e \<Rightarrow> Inl e
           | Inr fac_k \<Rightarrow>
               (let term = mp_binomial (of_int m) k * fac_k * stirling_val
                in prob_r3_bottomup_loop m stirling_values ks (tot + term)))
      | None \<Rightarrow> prob_r3_bottomup_loop m stirling_values ks tot)"

definition prob_r3_bottomup :: "int \<Rightarrow> int \<Rightarrow> error + mpf" where
  "prob_r3_bottomup m n =
     (let stirling_values = assoc_stirling_bottomup n;
          max_k = n div 2
      in case prob_r3_bottomup_loop m stirling_values [1..max_k] 0 of
           Inl e \<Rightarrow> Inl e
         | Inr tot \<Rightarrow>
             (case mp_power (of_int m) n of
                Inl e \<Rightarrow> Inl e
              | Inr d \<Rightarrow> mp_div tot d))"

section \<open>Reference values for the proofs\<close>

text \<open>A dictionary read with an absent key meaning \<open>0\<close>.\<close>

definition entry :: "('a \<rightharpoonup> rat) \<Rightarrow> 'a \<Rightarrow> rat" where
  "entry d x = (case d x of None \<Rightarrow> 0 | Some v \<Rightarrow> v)"

text \<open>The recurrence of \<^verbatim>\<open>T\<close> with the memo table taken out: the same three cases in the
  same order.\<close>

function T_val :: "int \<Rightarrow> int \<Rightarrow> int \<Rightarrow> int \<Rightarrow> rat" where
  "T_val j k n m =
     (if j < 0 \<or> k < 0 \<or> n < 2 * j + k \<or> m < j + k then 0
      else if j = 0 \<and> k = 0 \<and> n = 0 then 1
      else of_int j * T_val j k (n - 1) m
         + of_int (k + 1) * T_val (j - 1) (k + 1) (n - 1) m
         + of_int (m - j - k + 1) * T_val j (k - 1) (n - 1) m)"
  by pat_completeness auto
termination
  by (relation "measure (\<lambda>(j, k, n, m). nat n)") auto

declare T_val.simps [simp del]

text \<open>The recurrence of \<^verbatim>\<open>assoc_stirling\<close> on the natural numbers, where it is total.\<close>

fun S_val :: "nat \<Rightarrow> nat \<Rightarrow> nat" where
  "S_val 0 k = (if k = 0 then 1 else 0)"
| "S_val (Suc 0) k = 0"
| "S_val (Suc (Suc n)) k =
     (if k = 0 \<or> Suc (Suc n) < 2 * k then 0
      else k * S_val (Suc n) k + Suc n * S_val n (k - 1))"

text \<open>The value that the loop body of \<^verbatim>\<open>T_bottomup\<close> computes for the cell \<open>(j, k)\<close>, and
  the one of \<^verbatim>\<open>assoc_stirling_bottomup\<close> for the cell \<open>k\<close>.\<close>

definition T_result :: "int \<Rightarrow> layer \<Rightarrow> int \<Rightarrow> int \<Rightarrow> rat" where
  "T_result m prev j k =
     of_int j * entry prev (j, k)
     + (if j > 0 then of_int (k + 1) * entry prev (j - 1, k + 1) else 0)
     + (if k > 0 then of_int (m - j - k + 1) * entry prev (j, k - 1) else 0)"

definition S_result :: "int \<Rightarrow> row \<Rightarrow> row \<Rightarrow> int \<Rightarrow> rat" where
  "S_result n prev1 prev2 k = of_int k * entry prev1 k + of_int (n - 1) * entry prev2 (k - 1)"

text \<open>The successive values of \<^verbatim>\<open>prev\<close> in the loops over \<open>n\<close>.\<close>

primrec T_rows :: "int \<Rightarrow> nat \<Rightarrow> layer" where
  "T_rows m 0 = Map.empty((0, 0) \<mapsto> 1)"
| "T_rows m (Suc i) = T_layer m (int (Suc i)) (T_rows m i)"

primrec P_rows :: "int \<Rightarrow> nat \<Rightarrow> layer" where
  "P_rows m 0 = Map.empty((0, 0) \<mapsto> 1)"
| "P_rows m (Suc i) = P_layer (1 / of_int m) m (int (Suc i)) (P_rows m i)"

fun S_rows :: "nat \<Rightarrow> row" where
  "S_rows 0 = Map.empty(0 \<mapsto> 1)"
| "S_rows (Suc 0) = Map.empty"
| "S_rows (Suc (Suc i)) = S_row (int (Suc (Suc i))) (S_rows (Suc i)) (S_rows i)"

text \<open>A memo table is consistent when every stored value is the value of the recurrence
  at its key.\<close>

definition T_memo_ok :: "T_memo \<Rightarrow> bool" where
  "T_memo_ok memo \<longleftrightarrow> (\<forall>j k n m v. memo (j, k, n, m) = Some v \<longrightarrow> v = T_val j k n m)"

definition P_memo_ok :: "P_memo \<Rightarrow> bool" where
  "P_memo_ok memo \<longleftrightarrow>
     (\<forall>j k n m v. memo (j, k, n, m) = Some v \<longrightarrow> v = T_val j k n m / of_int m ^ nat n)"

definition S_memo_ok :: "S_memo \<Rightarrow> bool" where
  "S_memo_ok memo \<longleftrightarrow> (\<forall>n k v. memo (n, k) = Some v \<longrightarrow> v = of_nat (S_val (nat n) (nat k)))"

text \<open>The falling factorial \<open>a (a - 1) \<cdots> (a - r + 1)\<close>, which is \<open>C(a, r) r!\<close>.\<close>

definition falling :: "rat \<Rightarrow> nat \<Rightarrow> rat" where
  "falling a r = (\<Prod>i = 0..<r. a - of_nat i)"

text \<open>The numerator of the direct formula at \<open>k = 0\<close>, summand and sum, and the number of
  assignments without a singleton day written with associated Stirling numbers; both on
  the natural numbers.\<close>

definition D_term :: "nat \<Rightarrow> nat \<Rightarrow> nat \<Rightarrow> rat" where
  "D_term m n j =
     (- 1) ^ j * of_nat (m choose j) * of_nat (n choose j) * fact j * (of_nat m - of_nat j) ^ (n - j)"

definition D_sum :: "nat \<Rightarrow> nat \<Rightarrow> rat" where
  "D_sum m n = (\<Sum>j\<le>n. D_term m n j)"

definition E_sum :: "nat \<Rightarrow> nat \<Rightarrow> rat" where
  "E_sum m n = (\<Sum>j\<le>n. falling (of_nat m) j * of_nat (S_val n j))"

text \<open>A result that is a number between \<open>0\<close> and \<open>1\<close>, not an error.\<close>

definition unit_prob :: "error + rat \<Rightarrow> bool" where
  "unit_prob r = (case r of Inl e \<Rightarrow> False | Inr p \<Rightarrow> 0 \<le> p \<and> p \<le> 1)"

section \<open>The direct formula computes the stated sum\<close>

lemma prob_loop_sum:
  "(\<And>j. j \<in> set js \<Longrightarrow> prob_term m n k j = Inr (f j))
   \<Longrightarrow> prob_loop m n k js s = Inr (s + sum_list (map f js))"
  by (induction js arbitrary: s) (simp_all add: add.assoc)

lemma mp_binomial_choose:
  "0 \<le> a \<Longrightarrow> 0 \<le> j \<Longrightarrow> mp_binomial (of_int a) j = of_nat (nat a choose nat j)"
  by (simp add: mp_binomial_def binomial_gbinomial)

lemma prob_term_valid:
  assumes "0 \<le> m" "0 \<le> k" "k \<le> j" "j \<le> n"
  shows "prob_term m n k j =
     Inr ((- 1) ^ nat (j - k) * of_nat (nat j choose nat k) * of_nat (nat m choose nat j)
        * of_nat (nat n choose nat j) * fact (nat j)
        * (if n - j = 0 then 1 else (of_int m - of_int j) ^ nat (n - j)))"
  using assms
  by (simp add: prob_term_def mp_binomial_choose mp_factorial_def mp_power_def power_int_def Let_def)

lemma prob_loop_valid:
  assumes "0 \<le> m" "0 \<le> k"
  shows "prob_loop m n k [k..n] 0 =
     Inr (\<Sum>j = k..n. (- 1) ^ nat (j - k) * of_nat (nat j choose nat k) * of_nat (nat m choose nat j)
        * of_nat (nat n choose nat j) * fact (nat j)
        * (if n - j = 0 then 1 else (of_int m - of_int j) ^ nat (n - j)))"
proof -
  let ?f = "\<lambda>j. (- 1) ^ nat (j - k) * of_nat (nat j choose nat k) * of_nat (nat m choose nat j)
        * of_nat (nat n choose nat j) * fact (nat j)
        * (if n - j = 0 then 1 else (of_int m - of_int j :: rat) ^ nat (n - j))"
  have "prob_loop m n k [k..n] 0 = Inr (0 + sum_list (map ?f [k..n]))"
    by (rule prob_loop_sum) (use assms in \<open>simp add: prob_term_valid\<close>)
  also have "sum_list (map ?f [k..n]) = sum ?f {k..n}"
    by (simp add: sum_list_distinct_conv_sum_set)
  finally show ?thesis by simp
qed

lemma prob_formula_value:
  assumes "1 \<le> m" "0 \<le> n" "0 \<le> k" "k \<le> n"
  shows "prob m n k = Inr (prob_formula m n k)"
proof -
  have den: "mp_power (of_int m) n = Inr (of_int m ^ nat n)"
    using assms by (simp add: mp_power_def power_int_def)
  have nz: "(of_int m :: rat) ^ nat n \<noteq> 0" using assms by simp
  have loop: "prob_loop m n k [k..n] 0 =
     Inr (\<Sum>j = k..n. (- 1) ^ nat (j - k) * of_nat (nat j choose nat k) * of_nat (nat m choose nat j)
        * of_nat (nat n choose nat j) * fact (nat j)
        * (if n - j = 0 then 1 else (of_int m - of_int j) ^ nat (n - j)))"
    using assms by (intro prob_loop_valid) simp_all
  show ?thesis
    unfolding prob_def den loop prob_formula_def using nz by (simp add: mp_div_def)
qed

text \<open>
  Claim C2.  For \<open>m \<ge> 1\<close>, \<open>n \<ge> 0\<close> and \<open>0 \<le> k \<le> n\<close> the direct formula evaluator returns
  \<open>m\<^sup>-\<^sup>n\<close> times the sum over \<open>j = k, \<dots>, n\<close> of
  \<open>(-1)\<^sup>j\<^sup>-\<^sup>k C(j,k) C(m,j) C(n,j) j! (m-j)\<^sup>n\<^sup>-\<^sup>j\<close>, the last factor being \<open>1\<close> whenever the
  exponent is \<open>0\<close>, whatever the base.
\<close>

theorem prob_direct_formula:
  assumes "1 \<le> m" "0 \<le> n" "0 \<le> k" "k \<le> n"
  shows "prob m n k = Inr (prob_formula m n k)"
  using assms by (rule prob_formula_value)

theorem prob_direct_formula_witness:
  "(1::int) \<le> 10 \<and> (0::int) \<le> 4 \<and> (0::int) \<le> 1 \<and> (1::int) \<le> 4
   \<and> prob 10 4 1 = Inr (prob_formula 10 4 1)"
  using prob_direct_formula [of 10 4 1] by simp

section \<open>Arguments outside the contract of the direct formula\<close>

lemma prob_empty_range:
  assumes "m \<noteq> 0" "n < k"
  shows "prob m n k = Inr 0"
proof -
  have "[k..n] = []" using assms by simp
  moreover have "mp_power (of_int m) n = Inr (of_int m powi n)"
    using assms by (simp add: mp_power_def)
  moreover have "(of_int m :: rat) powi n \<noteq> 0" using assms by simp
  ultimately show ?thesis by (simp add: prob_def mp_div_def)
qed

lemma prob_negative_k:
  assumes "m \<noteq> 0" "k < 0" "k \<le> n"
  shows "prob m n k = Inl ValueError"
proof -
  have "[k..n] = k # [k + 1..n]" using assms by (simp add: upto_rec1)
  moreover have "prob_term m n k k = Inl ValueError"
    using assms by (simp add: prob_term_def mp_factorial_def Let_def)
  moreover have "mp_power (of_int m) n = Inr (of_int m powi n)"
    using assms by (simp add: mp_power_def)
  ultimately show ?thesis by (simp add: prob_def)
qed

lemma prob_term_numeric:
  assumes "0 \<le> k" "k \<le> j" "j \<le> n"
  shows "\<exists>t. prob_term m n k j = Inr t"
  using assms by (simp add: prob_term_def mp_factorial_def mp_power_def Let_def)

lemma prob_loop_numeric:
  "(\<And>j. j \<in> set js \<Longrightarrow> \<exists>t. prob_term m n k j = Inr t)
   \<Longrightarrow> \<exists>s'. prob_loop m n k js s = Inr s'"
proof (induction js arbitrary: s)
  case Nil
  show ?case by simp
next
  case (Cons j js)
  obtain t where t: "prob_term m n k j = Inr t" using Cons.prems [of j] by auto
  have "\<exists>s'. prob_loop m n k js (s + t) = Inr s'"
    by (rule Cons.IH) (simp add: Cons.prems)
  then show ?case by (simp add: t)
qed

lemma prob_numeric:
  assumes "m \<noteq> 0" "0 \<le> k" "k \<le> n"
  shows "\<exists>p. prob m n k = Inr p"
proof -
  have "\<exists>s'. prob_loop m n k [k..n] 0 = Inr s'"
    by (rule prob_loop_numeric) (use assms in \<open>simp add: prob_term_numeric\<close>)
  then obtain s' where l: "prob_loop m n k [k..n] 0 = Inr s'" by blast
  have "0 \<le> n" using assms by linarith
  then have d: "mp_power (of_int m) n = Inr (of_int m ^ nat n)"
    using assms by (simp add: mp_power_def power_int_def)
  have "(of_int m :: rat) ^ nat n \<noteq> 0" using assms by simp
  then show ?thesis by (simp add: prob_def l d mp_div_def)
qed

text \<open>
  Claim C6 says that \<^verbatim>\<open>prob\<close> fails fast with an invalid-argument error on a negative
  \<open>m\<close>, a negative \<open>n\<close>, or a \<open>k\<close> outside \<open>[0, n]\<close>.  The function has no argument check:
  at \<open>m = 5\<close>, \<open>n = -1\<close>, \<open>k = 0\<close> and at \<open>m = 3\<close>, \<open>n = 2\<close>, \<open>k = 5\<close> the range of the loop is
  empty and the number \<open>0\<close> is returned, and at \<open>m = -2\<close>, \<open>n = 2\<close>, \<open>k = 0\<close> the three
  summands \<open>4\<close>, \<open>-12\<close>, \<open>6\<close> are added and the number \<open>-1/2\<close> is returned.
\<close>

theorem prob_invalid_arguments_counterexample:
  "prob 5 (- 1) 0 = Inr 0 \<and> prob 3 2 5 = Inr 0 \<and> prob (- 2) 2 0 = Inr (- 1 / 2)"
proof -
  have "prob (- 2) 2 0 = Inr (- 1 / 2)" by code_simp
  then show ?thesis by (simp add: prob_empty_range)
qed

text \<open>
  Claim C6, amended.  \<^verbatim>\<open>prob\<close> performs no validation of its arguments.  With \<open>m \<noteq> 0\<close>,
  negative or not: every call with \<open>k > n\<close> (so every call with a negative \<open>n\<close> and \<open>k \<ge> 0\<close>)
  returns the number \<open>0\<close>; every call with \<open>0 \<le> k \<le> n\<close>, also one with a negative \<open>m\<close>,
  returns a number; and a call with \<open>k < 0\<close> and \<open>k \<le> n\<close> fails, not by an argument check
  but with the error that the kernel's factorial raises at the first summand \<open>j = k\<close>.
\<close>

theorem prob_invalid_arguments:
  assumes "m \<noteq> 0"
  shows "(n < k \<longrightarrow> prob m n k = Inr 0)
       \<and> (k < 0 \<and> k \<le> n \<longrightarrow> prob m n k = Inl ValueError)
       \<and> (0 \<le> k \<and> k \<le> n \<longrightarrow> (\<exists>p. prob m n k = Inr p))"
  using assms prob_empty_range prob_negative_k prob_numeric by blast

theorem prob_invalid_arguments_witness:
  "(5::int) \<noteq> 0 \<and> (- 1::int) < 0 \<and> prob 5 (- 1) 0 = Inr 0
   \<and> (- 1::int) < 0 \<and> (- 1::int) \<le> 3 \<and> prob 5 3 (- 1) = Inl ValueError
   \<and> (- 2::int) \<noteq> 0 \<and> (0::int) \<le> 0 \<and> (0::int) \<le> 2 \<and> (\<exists>p. prob (- 2) 2 0 = Inr p)
   \<and> prob (- 2) 2 0 = Inr (- 1 / 2)"
proof -
  have "prob (- 2) 2 0 = Inr (- 1 / 2)" by code_simp
  then show ?thesis
    using prob_invalid_arguments [of 5 "- 1" 0] prob_invalid_arguments [of 5 3 "- 1"]
      prob_invalid_arguments [of "- 2" 2 0] by simp
qed

section \<open>Pruning of invalid keys\<close>

lemma T_invalid_key:
  assumes "j < 0 \<or> k < 0 \<or> n < 2 * j + k \<or> m < j + k"
  shows "T j k n m (Some memo) = ((case memo (j, k, n, m) of Some v \<Rightarrow> v | None \<Rightarrow> 0), memo)"
  using assms by (subst T.simps) (simp split: option.split)

lemma P_invalid_key:
  assumes "j < 0 \<or> k < 0 \<or> n < 2 * j + k \<or> m < j + k"
  shows "P j k n m (Some memo) = Inr ((case memo (j, k, n, m) of Some v \<Rightarrow> v | None \<Rightarrow> 0), memo)"
  using assms by (subst P.simps) (simp split: option.split)

lemma assoc_stirling_invalid_key:
  assumes "(n \<le> 0 \<and> k > 0) \<or> (n > 0 \<and> k \<le> 0) \<or> n < 2 * k"
  shows "assoc_stirling n k (Some memo) =
    Some (Inr ((case memo (n, k) of Some v \<Rightarrow> v | None \<Rightarrow> 0), memo))"
  using assms by (subst assoc_stirling.simps) (simp split: option.split)

text \<open>
  Claim C5 says that on a key failing the validity predicate the memoized functions
  return exactly \<open>0\<close> for every initial content of the memo table.  The lookup comes
  before the validity test: a table that holds the invalid key \<open>(-1, 0, 0, 1)\<close> with the
  value \<open>5\<close> makes \<^verbatim>\<open>T\<close> return \<open>5\<close>.
\<close>

theorem pruning_counterexample:
  "fst (T (- 1) 0 0 1 (Some (Map.empty((- 1, 0, 0, 1) \<mapsto> 5)))) \<noteq> 0"
  by (simp add: T_invalid_key)

text \<open>
  Claim C5, amended.  On a key failing the validity predicate (for \<^verbatim>\<open>T\<close> and \<^verbatim>\<open>P\<close>:
  \<open>j < 0\<close> or \<open>k < 0\<close> or \<open>n < 2j + k\<close> or \<open>m < j + k\<close>; for \<^verbatim>\<open>assoc_stirling\<close>: \<open>n \<le> 0\<close> and
  \<open>k > 0\<close>, or \<open>n > 0\<close> and \<open>k \<le> 0\<close>, or \<open>n < 2k\<close>) the memoized functions leave the memo
  table unchanged, whatever it holds, and return exactly \<open>0\<close> whenever the table has no
  entry under that key; a table that already holds the key answers with the stored value.
\<close>

theorem pruning_invalid_keys:
  "(j < 0 \<or> k < 0 \<or> n < 2 * j + k \<or> m < j + k \<longrightarrow>
      T j k n m (Some tm) = ((case tm (j, k, n, m) of None \<Rightarrow> 0 | Some v \<Rightarrow> v), tm)
    \<and> P j k n m (Some pm) = Inr ((case pm (j, k, n, m) of None \<Rightarrow> 0 | Some v \<Rightarrow> v), pm))
   \<and> ((n' \<le> 0 \<and> k' > 0) \<or> (n' > 0 \<and> k' \<le> 0) \<or> n' < 2 * k' \<longrightarrow>
      assoc_stirling n' k' (Some sm) =
        Some (Inr ((case sm (n', k') of None \<Rightarrow> 0 | Some v \<Rightarrow> v), sm)))"
proof (intro conjI impI)
  assume "j < 0 \<or> k < 0 \<or> n < 2 * j + k \<or> m < j + k"
  then show "T j k n m (Some tm) = ((case tm (j, k, n, m) of None \<Rightarrow> 0 | Some v \<Rightarrow> v), tm)"
    by (simp add: T_invalid_key split: option.split)
next
  assume "j < 0 \<or> k < 0 \<or> n < 2 * j + k \<or> m < j + k"
  then show "P j k n m (Some pm) = Inr ((case pm (j, k, n, m) of None \<Rightarrow> 0 | Some v \<Rightarrow> v), pm)"
    by (simp add: P_invalid_key split: option.split)
next
  assume "(n' \<le> 0 \<and> k' > 0) \<or> (n' > 0 \<and> k' \<le> 0) \<or> n' < 2 * k'"
  then show "assoc_stirling n' k' (Some sm) =
        Some (Inr ((case sm (n', k') of None \<Rightarrow> 0 | Some v \<Rightarrow> v), sm))"
    by (simp add: assoc_stirling_invalid_key split: option.split)
qed

theorem pruning_invalid_keys_witness:
  "T 2 0 3 5 (Some Map.empty) = (0, Map.empty)
   \<and> P 2 0 3 5 (Some Map.empty) = Inr (0, Map.empty)
   \<and> assoc_stirling 3 2 (Some Map.empty) = Some (Inr (0, Map.empty))"
  using pruning_invalid_keys [of 2 0 3 5 Map.empty Map.empty 3 2 Map.empty] by simp

section \<open>The omitted memo argument\<close>

lemma assoc_stirling_Some_no_error_aux:
  assumes "assoc_stirling n k a = Some r"
  shows "a \<noteq> None \<longrightarrow> (\<exists>v memo'. r = Inr (v, memo'))"
proof (rule assoc_stirling.raw_induct
    [where P = "\<lambda>n k a r. a \<noteq> None \<longrightarrow> (\<exists>v memo'. r = Inr (v, memo'))", OF _ assms], goal_cases)
  case (1 S n k a r)
  show ?case
  proof
    assume "a \<noteq> None"
    then obtain memo where a: "a = Some memo" by auto
    show "\<exists>v memo'. r = Inr (v, memo')"
      using 1 unfolding a
      by (fastforce split: option.splits if_splits sum.splits prod.splits Option.bind_splits
            simp: Let_def)
  qed
qed

lemma assoc_stirling_Some_no_error:
  "assoc_stirling n k (Some memo) = Some r \<Longrightarrow> \<exists>v memo'. r = Inr (v, memo')"
  using assoc_stirling_Some_no_error_aux [of n k "Some memo" r] by simp

lemma prob_r3_memo_loop_no_TypeError:
  "prob_r3_memo_loop m n ks memo tot \<noteq> Some (Inl TypeError)"
proof (induction ks arbitrary: memo tot)
  case Nil
  show ?case by simp
next
  case (Cons k ks)
  show ?case
  proof (cases "assoc_stirling n k (Some memo)")
    case None
    then show ?thesis by simp
  next
    case (Some r)
    then obtain v memo' where r: "r = Inr (v, memo')"
      using assoc_stirling_Some_no_error by blast
    show ?thesis using Some r Cons.IH
      by (simp add: mp_factorial_def Let_def)
  qed
qed

lemma prob_r3_memo_no_TypeError: "prob_r3_memo m n \<noteq> Some (Inl TypeError)"
  using prob_r3_memo_loop_no_TypeError [of m n "[1..n div 2]" Map.empty 0]
  by (auto simp: prob_r3_memo_def mp_power_def mp_div_def Let_def split: option.splits sum.splits)

text \<open>
  Claim C10.  Called with the memo argument omitted, \<^verbatim>\<open>assoc_stirling\<close> fails with a type
  error at every \<open>(n, k)\<close>, because the membership test comes before any guard for \<^verbatim>\<open>None\<close>;
  \<^verbatim>\<open>T\<close> and \<^verbatim>\<open>P\<close> called that way run on a fresh, empty table.  The failure cannot be
  reached through \<^verbatim>\<open>prob_r3_memo\<close>, which always passes a dictionary.
\<close>

theorem assoc_stirling_omitted_memo:
  "assoc_stirling n k None = Some (Inl TypeError)
   \<and> T j' k' n' m' None = T j' k' n' m' (Some Map.empty)
   \<and> P j' k' n' m' None = P j' k' n' m' (Some Map.empty)
   \<and> prob_r3_memo m n \<noteq> Some (Inl TypeError)"
proof (intro conjI)
  show "assoc_stirling n k None = Some (Inl TypeError)"
    by (subst assoc_stirling.simps) simp
  show "T j' k' n' m' None = T j' k' n' m' (Some Map.empty)"
    by (subst T.simps, subst (2) T.simps) simp
  show "P j' k' n' m' None = P j' k' n' m' (Some Map.empty)"
    by (subst P.simps, subst (2) P.simps) simp
  show "prob_r3_memo m n \<noteq> Some (Inl TypeError)"
    by (rule prob_r3_memo_no_TypeError)
qed

section \<open>The layers of the bottom-up tabulations\<close>

lemma fold_store_inner:
  "fold (\<lambda>k cur. if c k then cur((j, k) \<mapsto> f k) else cur) ks cur0 (a, b) =
     (if a = j \<and> b \<in> set ks \<and> c b then Some (f b) else cur0 (a, b))"
  by (induction ks arbitrary: cur0) auto

lemma fold_store_outer:
  "fold (\<lambda>j. fold (\<lambda>k cur. if c j k then cur((j, k) \<mapsto> f j k) else cur) ks) js cur0 (a, b) =
     (if a \<in> set js \<and> b \<in> set ks \<and> c a b then Some (f a b) else cur0 (a, b))"
  by (induction js arbitrary: cur0) (auto simp: fold_store_inner)

lemma T_cell_store:
  "T_cell m n prev j k =
     (\<lambda>cur. if \<not> (n < 2 * j + k \<or> m < j + k) \<and> T_result m prev j k \<noteq> 0
            then cur((j, k) \<mapsto> T_result m prev j k) else cur)"
  by (auto simp: T_cell_def T_result_def entry_def Let_def fun_eq_iff split: option.splits)

lemma T_layer_lookup:
  "T_layer m n prev (j, k) =
     (if 0 \<le> j \<and> j \<le> n div 2 \<and> 0 \<le> k \<and> k \<le> min n m
         \<and> \<not> (n < 2 * j + k \<or> m < j + k) \<and> T_result m prev j k \<noteq> 0
      then Some (T_result m prev j k) else None)"
  unfolding T_layer_def Let_def T_cell_store
  by (subst fold_store_outer) auto

lemma P_cell_store:
  "P_cell m_inv m n prev j k =
     (\<lambda>cur. if \<not> n < 2 * j + k \<and> T_result m prev j k * m_inv \<noteq> 0
            then cur((j, k) \<mapsto> T_result m prev j k * m_inv) else cur)"
  by (auto simp: P_cell_def T_result_def entry_def Let_def fun_eq_iff split: option.splits)

lemma P_layer_lookup:
  "P_layer m_inv m n prev (j, k) =
     (if 0 \<le> j \<and> j \<le> n div 2 \<and> 0 \<le> k \<and> k \<le> min n m
         \<and> \<not> n < 2 * j + k \<and> T_result m prev j k * m_inv \<noteq> 0
      then Some (T_result m prev j k * m_inv) else None)"
  unfolding P_layer_def Let_def P_cell_store
  by (subst fold_store_outer) auto

lemma upto_1_Suc: "[1..int (Suc i)] = [1..int i] @ [int (Suc i)]"
  by (simp add: upto_rec2)

lemma fold_rows:
  assumes "\<And>i. rows (Suc i) = L (int (Suc i)) (rows i)"
  shows "fold (\<lambda>n (prev, cur). let cur = L n prev in (cur, cur)) [1..int (Suc i)] (rows 0, c0)
   = (rows (Suc i), rows (Suc i))"
proof (induction i)
  case 0
  have "[1..int (Suc 0)] = [1]" by (simp add: upto_rec1)
  then show ?case by (simp add: assms Let_def)
next
  case (Suc i)
  show ?case
    unfolding upto_1_Suc [of "Suc i"] fold_append comp_def Suc.IH
    by (simp add: assms Let_def)
qed

lemma T_bottomup_rows: "1 \<le> n \<Longrightarrow> T_bottomup n m = T_rows m (nat n)"
proof -
  assume "1 \<le> n"
  then have n: "n = int (Suc (nat (n - 1)))" by simp
  have "T_bottomup (int (Suc (nat (n - 1)))) m = T_rows m (Suc (nat (n - 1)))"
    unfolding T_bottomup_def
    using fold_rows [of "T_rows m" "T_layer m" "nat (n - 1)" Map.empty] by simp
  then show ?thesis using n by (metis nat_int)
qed

lemma P_bottomup_rows: "1 \<le> n \<Longrightarrow> m \<noteq> 0 \<Longrightarrow> P_bottomup n m = Inr (P_rows m (nat n))"
proof -
  assume "1 \<le> n" and m: "m \<noteq> 0"
  then have n: "n = int (Suc (nat (n - 1)))" by simp
  have "P_bottomup (int (Suc (nat (n - 1)))) m = Inr (P_rows m (Suc (nat (n - 1))))"
    unfolding P_bottomup_def
    using m fold_rows [of "P_rows m" "P_layer (1 / of_int m) m" "nat (n - 1)" Map.empty]
    by (simp add: mp_div_def)
  then show ?thesis using n by (metis nat_int)
qed


lemma entry_None: "d x = None \<Longrightarrow> entry d x = 0"
  by (simp add: entry_def)

lemma entry_Some: "d x = Some v \<Longrightarrow> entry d x = v"
  by (simp add: entry_def)

lemma entry_zero_absent: "(\<And>v. d x \<noteq> Some v) \<Longrightarrow> entry d x = 0"
  by (cases "d x") (auto simp: entry_def)

lemma T_result_over_budget:
  assumes inv: "\<And>a b v. prev (a, b) = Some v \<Longrightarrow> a + b \<le> m"
    and over: "m < j + k"
  shows "T_result m prev j k = 0"
proof -
  have e1: "entry prev (j, k) = 0"
    using inv [of j k] over by (intro entry_zero_absent) fastforce
  have e2: "entry prev (j - 1, k + 1) = 0"
    using inv [of "j - 1" "k + 1"] over by (intro entry_zero_absent) fastforce
  have e3: "of_int (m - j - k + 1) * entry prev (j, k - 1) = 0"
  proof (cases "j + k = m + 1")
    case True
    then show ?thesis by simp
  next
    case False
    then have "entry prev (j, k - 1) = 0"
      using inv [of j "k - 1"] over by (intro entry_zero_absent) fastforce
    then show ?thesis by simp
  qed
  show ?thesis unfolding T_result_def e1 e2 using e3 by simp
qed

lemma P_rows_budget:
  assumes "0 \<le> m"
  shows "P_rows m i (j, k) = Some v \<Longrightarrow> j + k \<le> m"
proof (induction i arbitrary: j k v)
  case 0
  then show ?case using assms by (simp split: if_splits)
next
  case (Suc i)
  show ?case
  proof (rule ccontr)
    assume "\<not> j + k \<le> m"
    then have "T_result m (P_rows m i) j k = 0"
      using Suc.IH by (intro T_result_over_budget) auto
    then show False using Suc.prems by (simp add: P_layer_lookup split: if_splits)
  qed
qed

lemma T_rows_keys:
  assumes "T_rows m (Suc i) (j, k) = Some v"
  shows "0 \<le> j \<and> 0 \<le> k \<and> 2 * j + k \<le> int (Suc i) \<and> j + k \<le> m \<and> v \<noteq> 0"
  using assms by (auto simp: T_layer_lookup split: if_splits)

lemma P_rows_keys:
  assumes "P_rows m (Suc i) (j, k) = Some v"
  shows "0 \<le> j \<and> 0 \<le> k \<and> 2 * j + k \<le> int (Suc i) \<and> j + k \<le> m \<and> v \<noteq> 0"
proof -
  have a: "0 \<le> j \<and> 0 \<le> k \<and> 2 * j + k \<le> int (Suc i) \<and> k \<le> m \<and> v \<noteq> 0"
    using assms by (auto simp: P_layer_lookup split: if_splits)
  then have "0 \<le> m" by linarith
  then have "j + k \<le> m" using P_rows_budget assms by blast
  with a show ?thesis by simp
qed

text \<open>
  Claim C9.  Every layer \<open>n \<ge> 1\<close> built by \<^verbatim>\<open>T_bottomup\<close> or \<^verbatim>\<open>P_bottomup\<close> (the layer of
  index \<open>n\<close> is what the function returns at the target \<open>n\<close>) stores only keys \<open>(j, k)\<close> with
  \<open>j \<ge> 0\<close>, \<open>k \<ge> 0\<close>, \<open>2j + k \<le> n\<close> and \<open>j + k \<le> m\<close>, each with a non-zero value.
  \<^verbatim>\<open>P_bottomup\<close> keeps \<open>j + k \<le> m\<close> without testing it: beyond the budget only the third
  term can read a stored entry, and then its coefficient \<open>m - j - k + 1\<close> is \<open>0\<close>.
\<close>

theorem bottomup_layer_invariant:
  assumes "1 \<le> n"
  shows "(T_bottomup n m (j, k) = Some v \<longrightarrow>
            0 \<le> j \<and> 0 \<le> k \<and> 2 * j + k \<le> n \<and> j + k \<le> m \<and> v \<noteq> 0)
       \<and> (P_bottomup n m = Inr P_values \<and> P_values (j, k) = Some v \<longrightarrow>
            0 \<le> j \<and> 0 \<le> k \<and> 2 * j + k \<le> n \<and> j + k \<le> m \<and> v \<noteq> 0)"
proof -
  from assms have n: "nat n = Suc (nat (n - 1))" "int (Suc (nat (n - 1))) = n" by simp_all
  have t: "T_bottomup n m (j, k) = Some v \<longrightarrow>
            0 \<le> j \<and> 0 \<le> k \<and> 2 * j + k \<le> n \<and> j + k \<le> m \<and> v \<noteq> 0"
    using T_rows_keys [of m "nat (n - 1)" j k v] n assms by (simp add: T_bottomup_rows)
  have p: "P_bottomup n m = Inr P_values \<and> P_values (j, k) = Some v \<longrightarrow>
            0 \<le> j \<and> 0 \<le> k \<and> 2 * j + k \<le> n \<and> j + k \<le> m \<and> v \<noteq> 0"
  proof (cases "m = 0")
    case True
    then show ?thesis by (simp add: P_bottomup_def mp_div_def)
  next
    case False
    then show ?thesis
      using P_rows_keys [of m "nat (n - 1)" j k v] n assms by (auto simp: P_bottomup_rows)
  qed
  from t p show ?thesis by simp
qed

theorem bottomup_layer_invariant_witness:
  "(1::int) \<le> 5 \<and> T_bottomup 5 3 (1, 2) = Some 60 \<and> P_bottomup 5 3 = Inr (P_rows 3 5)
   \<and> P_rows 3 5 (1, 2) = Some (20 / 81)
   \<and> (0::int) \<le> 1 \<and> (0::int) \<le> 2 \<and> (2::int) * 1 + 2 \<le> 5 \<and> (1::int) + 2 \<le> 3"
proof -
  have t: "T_bottomup 5 3 (1, 2) = Some 60" by code_simp
  have p: "P_bottomup 5 3 = Inr (P_rows 3 5)" using P_bottomup_rows [of 5 3] by simp
  have q: "P_rows 3 5 (1, 2) = Some (20 / 81)" by code_simp
  show ?thesis
    using bottomup_layer_invariant [of 5 3 1 2 60 "P_rows 3 5"]
      bottomup_layer_invariant [of 5 3 1 2 "20 / 81" "P_rows 3 5"] t p q by simp
qed

section \<open>The memoized recursions compute the recurrences\<close>

lemma T_val_invalid: "j < 0 \<or> k < 0 \<or> n < 2 * j + k \<or> m < j + k \<Longrightarrow> T_val j k n m = 0"
  by (subst T_val.simps) simp

lemma T_val_base: "0 \<le> m \<Longrightarrow> T_val 0 0 0 m = 1"
  by (subst T_val.simps) simp

lemma T_val_rec:
  assumes "\<not> (j < 0 \<or> k < 0 \<or> n < 2 * j + k \<or> m < j + k)" "\<not> (j = 0 \<and> k = 0 \<and> n = 0)"
  shows "T_val j k n m = of_int j * T_val j k (n - 1) m
         + of_int (k + 1) * T_val (j - 1) (k + 1) (n - 1) m
         + of_int (m - j - k + 1) * T_val j (k - 1) (n - 1) m"
  by (subst T_val.simps) (use assms in auto)

lemma T_memo_ok_upd: "T_memo_ok memo \<Longrightarrow> T_memo_ok (memo((j, k, n, m) \<mapsto> T_val j k n m))"
  by (auto simp: T_memo_ok_def)

lemma T_unfold:
  "T j k n m (Some memo) =
     (case memo (j, k, n, m) of
        Some v \<Rightarrow> (v, memo)
      | None \<Rightarrow>
          if j < 0 \<or> k < 0 \<or> n < 2 * j + k \<or> m < j + k then (0, memo)
          else if j = 0 \<and> k = 0 \<and> n = 0 then (1, memo)
          else
            (case T j k (n - 1) m (Some memo) of (t1, memo1) \<Rightarrow>
             case T (j - 1) (k + 1) (n - 1) m (Some memo1) of (t2, memo2) \<Rightarrow>
             case T j (k - 1) (n - 1) m (Some memo2) of (t3, memo3) \<Rightarrow>
               (of_int j * t1 + of_int (k + 1) * t2 + of_int (m - j - k + 1) * t3,
                memo3((j, k, n, m) \<mapsto>
                  of_int j * t1 + of_int (k + 1) * t2 + of_int (m - j - k + 1) * t3))))"
  by (subst T.simps) (auto simp: Let_def split: option.split prod.split)

lemma T_memo_step:
  assumes ok: "T_memo_ok memo"
    and IH: "\<And>j' k' memo'. 1 \<le> n \<Longrightarrow> T_memo_ok memo' \<Longrightarrow>
        fst (T j' k' (n - 1) m (Some memo')) = T_val j' k' (n - 1) m
        \<and> T_memo_ok (snd (T j' k' (n - 1) m (Some memo')))"
  shows "fst (T j k n m (Some memo)) = T_val j k n m \<and> T_memo_ok (snd (T j k n m (Some memo)))"
proof (cases "memo (j, k, n, m)")
  case (Some v)
  have "T j k n m (Some memo) = (v, memo)" by (subst T_unfold) (simp add: Some)
  moreover have "v = T_val j k n m" using ok Some by (simp add: T_memo_ok_def)
  ultimately show ?thesis using ok by simp
next
  case None
  show ?thesis
  proof (cases "j < 0 \<or> k < 0 \<or> n < 2 * j + k \<or> m < j + k")
    case True
    have "T j k n m (Some memo) = (0, memo)" by (subst T_unfold) (use None True in auto)
    then show ?thesis using ok True by (simp add: T_val_invalid)
  next
    case valid: False
    show ?thesis
    proof (cases "j = 0 \<and> k = 0 \<and> n = 0")
      case True
      have "T j k n m (Some memo) = (1, memo)" by (subst T_unfold) (use None valid True in auto)
      moreover have "T_val j k n m = 1" using True valid by (simp add: T_val_base)
      ultimately show ?thesis using ok by simp
    next
      case False
      then have n: "1 \<le> n" using valid by linarith
      obtain t1 memo1 where c1: "T j k (n - 1) m (Some memo) = (t1, memo1)" by force
      obtain t2 memo2 where c2: "T (j - 1) (k + 1) (n - 1) m (Some memo1) = (t2, memo2)" by force
      obtain t3 memo3 where c3: "T j (k - 1) (n - 1) m (Some memo2) = (t3, memo3)" by force
      have r1: "t1 = T_val j k (n - 1) m" "T_memo_ok memo1"
        using IH [OF n ok, of j k] c1 by simp_all
      have r2: "t2 = T_val (j - 1) (k + 1) (n - 1) m" "T_memo_ok memo2"
        using IH [OF n r1(2), of "j - 1" "k + 1"] c2 by simp_all
      have r3: "t3 = T_val j (k - 1) (n - 1) m" "T_memo_ok memo3"
        using IH [OF n r2(2), of j "k - 1"] c3 by simp_all
      have "T j k n m (Some memo) =
          (of_int j * t1 + of_int (k + 1) * t2 + of_int (m - j - k + 1) * t3,
           memo3((j, k, n, m) \<mapsto> of_int j * t1 + of_int (k + 1) * t2 + of_int (m - j - k + 1) * t3))"
        by (subst T_unfold) (use None valid False in \<open>auto simp: c1 c2 c3\<close>)
      moreover have "of_int j * t1 + of_int (k + 1) * t2 + of_int (m - j - k + 1) * t3 = T_val j k n m"
        unfolding r1 r2 r3 using T_val_rec [OF valid False] by simp
      ultimately show ?thesis using r3(2) by (simp add: T_memo_ok_upd)
    qed
  qed
qed

lemma T_memo_correct:
  "T_memo_ok memo \<Longrightarrow>
     fst (T j k n m (Some memo)) = T_val j k n m \<and> T_memo_ok (snd (T j k n m (Some memo)))"
proof (induction x \<equiv> "nat n" arbitrary: n j k memo)
  case 0
  then have "\<not> 1 \<le> n" by simp
  then show ?case by (intro T_memo_step [OF "0.prems"]) simp
next
  case (Suc x)
  show ?case
  proof (rule T_memo_step [OF Suc.prems])
    fix j' k' memo'
    assume "1 \<le> n" "T_memo_ok memo'"
    moreover have "x = nat (n - 1)" using Suc.hyps(2) by simp
    ultimately show "fst (T j' k' (n - 1) m (Some memo')) = T_val j' k' (n - 1) m
        \<and> T_memo_ok (snd (T j' k' (n - 1) m (Some memo')))"
      using Suc.hyps(1) [of "n - 1" memo' j' k'] by simp
  qed
qed

lemma P_unfold:
  "P j k n m (Some memo) =
     (case memo (j, k, n, m) of
        Some v \<Rightarrow> Inr (v, memo)
      | None \<Rightarrow>
          if j < 0 \<or> k < 0 \<or> n < 2 * j + k \<or> m < j + k then Inr (0, memo)
          else if j = 0 \<and> k = 0 \<and> n = 0 then Inr (1, memo)
          else
            (case mp_div 1 (of_int m) of Inl e \<Rightarrow> Inl e | Inr m_inv \<Rightarrow>
             case P j k (n - 1) m (Some memo) of Inl e \<Rightarrow> Inl e | Inr (p1, memo1) \<Rightarrow>
             case P (j - 1) (k + 1) (n - 1) m (Some memo1) of Inl e \<Rightarrow> Inl e | Inr (p2, memo2) \<Rightarrow>
             case P j (k - 1) (n - 1) m (Some memo2) of Inl e \<Rightarrow> Inl e | Inr (p3, memo3) \<Rightarrow>
               Inr (m_inv * (of_int j * p1 + of_int (k + 1) * p2 + of_int (m - j - k + 1) * p3),
                memo3((j, k, n, m) \<mapsto>
                  m_inv * (of_int j * p1 + of_int (k + 1) * p2 + of_int (m - j - k + 1) * p3)))))"
  by (subst P.simps) (auto simp: Let_def split: option.split prod.split sum.split)

lemma P_memo_ok_upd:
  "P_memo_ok memo \<Longrightarrow> v = T_val j k n m / of_int m ^ nat n \<Longrightarrow> P_memo_ok (memo((j, k, n, m) \<mapsto> v))"
  by (auto simp: P_memo_ok_def)

lemma P_memo_step:
  assumes m: "1 \<le> m" and ok: "P_memo_ok memo"
    and IH: "\<And>j' k' memo'. 1 \<le> n \<Longrightarrow> P_memo_ok memo' \<Longrightarrow>
        \<exists>memo''. P j' k' (n - 1) m (Some memo') =
            Inr (T_val j' k' (n - 1) m / of_int m ^ nat (n - 1), memo'') \<and> P_memo_ok memo''"
  shows "\<exists>memo''. P j k n m (Some memo) = Inr (T_val j k n m / of_int m ^ nat n, memo'')
           \<and> P_memo_ok memo''"
proof (cases "memo (j, k, n, m)")
  case (Some v)
  have "P j k n m (Some memo) = Inr (v, memo)" by (subst P_unfold) (simp add: Some)
  moreover have "v = T_val j k n m / of_int m ^ nat n" using ok Some by (simp add: P_memo_ok_def)
  ultimately show ?thesis using ok by simp
next
  case None
  show ?thesis
  proof (cases "j < 0 \<or> k < 0 \<or> n < 2 * j + k \<or> m < j + k")
    case True
    have "P j k n m (Some memo) = Inr (0, memo)" by (subst P_unfold) (use None True in auto)
    then show ?thesis using ok True by (simp add: T_val_invalid)
  next
    case valid: False
    show ?thesis
    proof (cases "j = 0 \<and> k = 0 \<and> n = 0")
      case True
      have e: "P j k n m (Some memo) = Inr (1, memo)"
        by (subst P_unfold) (use None valid True in auto)
      have v: "T_val j k n m / of_int m ^ nat n = 1" using True valid by (simp add: T_val_base)
      show ?thesis unfolding e v using ok by simp
    next
      case False
      then have n: "1 \<le> n" using valid by linarith
      let ?d = "(of_int m :: rat) ^ nat (n - 1)"
      obtain memo1 where c1: "P j k (n - 1) m (Some memo) = Inr (T_val j k (n - 1) m / ?d, memo1)"
        and o1: "P_memo_ok memo1"
        using IH [OF n ok, of j k] by blast
      obtain memo2 where
        c2: "P (j - 1) (k + 1) (n - 1) m (Some memo1) = Inr (T_val (j - 1) (k + 1) (n - 1) m / ?d, memo2)"
        and o2: "P_memo_ok memo2"
        using IH [OF n o1, of "j - 1" "k + 1"] by blast
      obtain memo3 where
        c3: "P j (k - 1) (n - 1) m (Some memo2) = Inr (T_val j (k - 1) (n - 1) m / ?d, memo3)"
        and o3: "P_memo_ok memo3"
        using IH [OF n o2, of j "k - 1"] by blast
      let ?r = "(1 / of_int m) * (of_int j * (T_val j k (n - 1) m / ?d)
            + of_int (k + 1) * (T_val (j - 1) (k + 1) (n - 1) m / ?d)
            + of_int (m - j - k + 1) * (T_val j (k - 1) (n - 1) m / ?d))"
      have dv: "mp_div 1 (of_int m) = Inr (1 / of_int m)" using m by (simp add: mp_div_def)
      have eq: "P j k n m (Some memo) = Inr (?r, memo3((j, k, n, m) \<mapsto> ?r))"
        by (subst P_unfold) (use None valid False in \<open>auto simp: c1 c2 c3 dv\<close>)
      have pw: "(of_int m :: rat) ^ nat n = of_int m * ?d"
        using n by (metis Suc_nat_eq_nat_zadd1 add.commute diff_add_cancel diff_ge_0_iff_ge power_Suc)
      have "?r = T_val j k n m / of_int m ^ nat n"
        unfolding T_val_rec [OF valid False] pw using m by (simp add: field_simps)
      then show ?thesis using eq o3 P_memo_ok_upd by auto
    qed
  qed
qed

lemma P_memo_correct:
  "1 \<le> m \<Longrightarrow> P_memo_ok memo \<Longrightarrow>
     \<exists>memo''. P j k n m (Some memo) = Inr (T_val j k n m / of_int m ^ nat n, memo'')
           \<and> P_memo_ok memo''"
proof (induction x \<equiv> "nat n" arbitrary: n j k memo)
  case 0
  then have "\<not> 1 \<le> n" by simp
  then show ?case by (intro P_memo_step [OF "0.prems"]) simp
next
  case (Suc x)
  show ?case
  proof (rule P_memo_step [OF Suc.prems])
    fix j' k' memo'
    assume "1 \<le> n" "P_memo_ok memo'"
    moreover have "x = nat (n - 1)" using Suc.hyps(2) by simp
    ultimately show "\<exists>memo''. P j' k' (n - 1) m (Some memo') =
            Inr (T_val j' k' (n - 1) m / of_int m ^ nat (n - 1), memo'') \<and> P_memo_ok memo''"
      using Suc.hyps(1) [of "n - 1" memo' j' k'] Suc.prems(1) by simp
  qed
qed

lemma S_val_zero_left: "0 < n \<Longrightarrow> S_val n 0 = 0"
proof -
  assume "0 < n"
  then obtain x where n: "n = Suc x" by (cases n) auto
  show ?thesis unfolding n by (cases x) simp_all
qed

lemma S_val_small: "n < 2 * k \<Longrightarrow> S_val n k = 0"
  by (induction n k rule: S_val.induct) auto

lemma S_val_rec:
  assumes "2 \<le> n" "1 \<le> k" "2 * k \<le> n"
  shows "S_val n k = k * S_val (n - 1) k + (n - 1) * S_val (n - 2) (k - 1)"
proof -
  have "n = Suc (Suc (n - 2))" using assms(1) by simp
  then obtain x where n: "n = Suc (Suc x)" ..
  show ?thesis using assms unfolding n by simp
qed

lemma assoc_stirling_unfold:
  "assoc_stirling n k (Some memo) =
     (case memo (n, k) of
        Some v \<Rightarrow> Some (Inr (v, memo))
      | None \<Rightarrow>
          if (n \<le> 0 \<and> k > 0) \<or> (n > 0 \<and> k \<le> 0) \<or> n < 2 * k then Some (Inr (0, memo))
          else if n = 0 \<and> k = 0 then Some (Inr (1, memo))
          else
            (case assoc_stirling (n - 1) k (Some memo) of
               None \<Rightarrow> None
             | Some (Inl e) \<Rightarrow> Some (Inl e)
             | Some (Inr (s1, memo1)) \<Rightarrow>
                 (case assoc_stirling (n - 2) (k - 1) (Some memo1) of
                    None \<Rightarrow> None
                  | Some (Inl e) \<Rightarrow> Some (Inl e)
                  | Some (Inr (s2, memo2)) \<Rightarrow>
                      Some (Inr (of_int k * s1 + of_int (n - 1) * s2,
                                 memo2((n, k) \<mapsto> of_int k * s1 + of_int (n - 1) * s2))))))"
  by (subst assoc_stirling.simps)
     (auto simp: Let_def split: option.split prod.split sum.split Option.bind_split)

lemma S_memo_ok_upd:
  "S_memo_ok memo \<Longrightarrow> v = of_nat (S_val (nat n) (nat k)) \<Longrightarrow> S_memo_ok (memo((n, k) \<mapsto> v))"
  by (auto simp: S_memo_ok_def)

lemma assoc_stirling_correct:
  "0 \<le> n \<Longrightarrow> 0 \<le> k \<Longrightarrow> S_memo_ok memo \<Longrightarrow>
     \<exists>memo'. assoc_stirling n k (Some memo) = Some (Inr (of_nat (S_val (nat n) (nat k)), memo'))
           \<and> S_memo_ok memo'"
proof (induction x \<equiv> "nat n" arbitrary: n k memo rule: less_induct)
  case less
  note ok = \<open>S_memo_ok memo\<close>
  show ?case
  proof (cases "memo (n, k)")
    case (Some v)
    have e: "assoc_stirling n k (Some memo) = Some (Inr (v, memo))"
      by (subst assoc_stirling_unfold) (simp add: Some)
    have "v = of_nat (S_val (nat n) (nat k))" using ok Some by (simp add: S_memo_ok_def)
    then show ?thesis using e ok by simp
  next
    case None
    show ?thesis
    proof (cases "(n \<le> 0 \<and> k > 0) \<or> (n > 0 \<and> k \<le> 0) \<or> n < 2 * k")
      case True
      have e: "assoc_stirling n k (Some memo) = Some (Inr (0, memo))"
        by (subst assoc_stirling_unfold) (use None True in auto)
      have "S_val (nat n) (nat k) = 0"
      proof (cases "n < 2 * k")
        case True
        then have "nat n < 2 * nat k" using less.prems by linarith
        then show ?thesis by (rule S_val_small)
      next
        case False
        with True less.prems have "(n = 0 \<and> k > 0) \<or> (n > 0 \<and> k = 0)" by linarith
        then show ?thesis
        proof
          assume "n = 0 \<and> k > 0" then show ?thesis by simp
        next
          assume "n > 0 \<and> k = 0" then show ?thesis by (simp add: S_val_zero_left)
        qed
      qed
      then show ?thesis using e ok by simp
    next
      case valid: False
      show ?thesis
      proof (cases "n = 0 \<and> k = 0")
        case True
        have e: "assoc_stirling n k (Some memo) = Some (Inr (1, memo))"
          by (subst assoc_stirling_unfold) (use None valid True in auto)
        show ?thesis using e ok True by simp
      next
        case False
        with valid less.prems have nk: "2 \<le> n" "1 \<le> k" "2 * k \<le> n" by linarith+
        obtain memo1 where
          c1: "assoc_stirling (n - 1) k (Some memo) =
                 Some (Inr (of_nat (S_val (nat (n - 1)) (nat k)), memo1))"
          and o1: "S_memo_ok memo1"
        proof -
          have "nat (n - 1) < nat n" "0 \<le> n - 1" using nk by linarith+
          then have "\<exists>memo'. assoc_stirling (n - 1) k (Some memo) =
                 Some (Inr (of_nat (S_val (nat (n - 1)) (nat k)), memo')) \<and> S_memo_ok memo'"
            using less.prems ok by (intro less.hyps) simp_all
          then show ?thesis using that by blast
        qed
        obtain memo2 where
          c2: "assoc_stirling (n - 2) (k - 1) (Some memo1) =
                 Some (Inr (of_nat (S_val (nat (n - 2)) (nat (k - 1))), memo2))"
          and o2: "S_memo_ok memo2"
        proof -
          have "nat (n - 2) < nat n" "0 \<le> n - 2" "0 \<le> k - 1" using nk by linarith+
          then have "\<exists>memo'. assoc_stirling (n - 2) (k - 1) (Some memo1) =
                 Some (Inr (of_nat (S_val (nat (n - 2)) (nat (k - 1))), memo')) \<and> S_memo_ok memo'"
            using o1 by (intro less.hyps) simp_all
          then show ?thesis using that by blast
        qed
        let ?r = "of_int k * of_nat (S_val (nat (n - 1)) (nat k))
                + of_int (n - 1) * (of_nat (S_val (nat (n - 2)) (nat (k - 1))) :: rat)"
        have e: "assoc_stirling n k (Some memo) = Some (Inr (?r, memo2((n, k) \<mapsto> ?r)))"
          by (subst assoc_stirling_unfold) (use None valid False in \<open>auto simp: c1 c2\<close>)
        have a: "nat (n - 1) = nat n - 1" "nat (n - 2) = nat n - 2" "nat (k - 1) = nat k - 1"
          by linarith+
        have b: "(of_int k :: rat) = of_nat (nat k)" "(of_int (n - 1) :: rat) = of_nat (nat n - 1)"
          using nk by (simp_all add: a [symmetric])
        have "S_val (nat n) (nat k) =
            nat k * S_val (nat n - 1) (nat k) + (nat n - 1) * S_val (nat n - 2) (nat k - 1)"
          using nk by (intro S_val_rec) linarith+
        then have "?r = of_nat (S_val (nat n) (nat k))"
          unfolding a b by (simp only: of_nat_add of_nat_mult)
        then have "S_memo_ok (memo2((n, k) \<mapsto> ?r))" using o2 by (intro S_memo_ok_upd)
        with e \<open>?r = of_nat (S_val (nat n) (nat k))\<close> show ?thesis by (metis (lifting))
      qed
    qed
  qed
qed

section \<open>The bottom-up layers hold the values of the recurrences\<close>

lemma T_result_rec:
  assumes "\<And>a b. entry prev (a, b) = c * T_val a b n m" "0 \<le> j" "0 \<le> k"
  shows "T_result m prev j k =
     c * (of_int j * T_val j k n m + of_int (k + 1) * T_val (j - 1) (k + 1) n m
          + of_int (m - j - k + 1) * T_val j (k - 1) n m)"
proof -
  have a: "j > 0 \<or> T_val (j - 1) (k + 1) n m = 0"
  proof (cases "j > 0")
    case False
    then have "j - 1 < 0" by linarith
    then show ?thesis by (simp add: T_val_invalid)
  qed simp
  have b: "k > 0 \<or> T_val j (k - 1) n m = 0"
  proof (cases "k > 0")
    case False
    then have "k - 1 < 0" by linarith
    then show ?thesis by (simp add: T_val_invalid)
  qed simp
  show ?thesis unfolding T_result_def assms(1) using a b by (auto simp: algebra_simps)
qed

lemma T_rec_sum_over_budget:
  assumes "m < j + k"
  shows "of_int j * T_val j k n m + of_int (k + 1) * T_val (j - 1) (k + 1) n m
          + of_int (m - j - k + 1) * T_val j (k - 1) n m = 0"
proof -
  have "T_val j k n m = 0" "T_val (j - 1) (k + 1) n m = 0"
    using assms by (simp_all add: T_val_invalid)
  moreover have "of_int (m - j - k + 1) * T_val j (k - 1) n m = 0"
  proof (cases "m = j + k - 1")
    case True
    then show ?thesis by simp
  next
    case False
    then have "m < j + (k - 1)" using assms by linarith
    then show ?thesis by (simp add: T_val_invalid)
  qed
  ultimately show ?thesis by simp
qed

lemma T_val_Suc:
  assumes "\<not> (j < 0 \<or> k < 0 \<or> int (Suc i) < 2 * j + k \<or> m < j + k)"
  shows "T_val j k (int (Suc i)) m =
     of_int j * T_val j k (int i) m + of_int (k + 1) * T_val (j - 1) (k + 1) (int i) m
          + of_int (m - j - k + 1) * T_val j (k - 1) (int i) m"
  using T_val_rec [OF assms] by simp

lemma T_rows_entry:
  assumes "0 \<le> m"
  shows "entry (T_rows m i) (j, k) = T_val j k (int i) m"
proof (induction i arbitrary: j k)
  case 0
  show ?case
  proof (cases "j = 0 \<and> k = 0")
    case True
    then show ?thesis using assms by (simp add: entry_def T_val_base)
  next
    case False
    then have "j < 0 \<or> k < 0 \<or> 0 < 2 * j + k" by linarith
    then have "T_val j k (int 0) m = 0" by (intro T_val_invalid) auto
    then show ?thesis using False by (auto simp: entry_def)
  qed
next
  case (Suc i)
  show ?case
  proof (cases "j < 0 \<or> k < 0 \<or> int (Suc i) < 2 * j + k \<or> m < j + k")
    case True
    then have "T_layer m (int (Suc i)) (T_rows m i) (j, k) = None"
      by (auto simp: T_layer_lookup)
    then show ?thesis using True by (simp add: entry_None T_val_invalid)
  next
    case False
    have R: "T_result m (T_rows m i) j k = T_val j k (int (Suc i)) m"
      unfolding T_val_Suc [OF False]
      by (subst T_result_rec [where c = 1 and n = "int i"]) (use Suc.IH False in simp_all)
    have rng: "0 \<le> j \<and> j \<le> int (Suc i) div 2 \<and> 0 \<le> k \<and> k \<le> min (int (Suc i)) m"
      using False by auto
    show ?thesis
      using R rng False by (auto simp: T_layer_lookup entry_def)
  qed
qed

lemma P_rows_entry:
  assumes "1 \<le> m"
  shows "entry (P_rows m i) (j, k) = T_val j k (int i) m / of_int m ^ i"
proof (induction i arbitrary: j k)
  case 0
  show ?case
  proof (cases "j = 0 \<and> k = 0")
    case True
    then show ?thesis using assms by (simp add: entry_def T_val_base)
  next
    case False
    then have "j < 0 \<or> k < 0 \<or> 0 < 2 * j + k" by linarith
    then have "T_val j k (int 0) m = 0" by (intro T_val_invalid) auto
    then show ?thesis using False by (auto simp: entry_def)
  qed
next
  case (Suc i)
  let ?c = "1 / (of_int m :: rat) ^ i"
  let ?s = "of_int j * T_val j k (int i) m + of_int (k + 1) * T_val (j - 1) (k + 1) (int i) m
          + of_int (m - j - k + 1) * T_val j (k - 1) (int i) m"
  show ?case
  proof (cases "j < 0 \<or> k < 0 \<or> int (Suc i) < 2 * j + k")
    case True
    then have "P_layer (1 / of_int m) m (int (Suc i)) (P_rows m i) (j, k) = None"
      by (auto simp: P_layer_lookup)
    moreover have "T_val j k (int (Suc i)) m = 0" using True by (intro T_val_invalid) auto
    ultimately show ?thesis by (simp add: entry_None)
  next
    case False
    have R: "T_result m (P_rows m i) j k = ?c * ?s"
      by (subst T_result_rec [where c = ?c and n = "int i"]) (use Suc.IH False in simp_all)
    have val: "?c * ?s * (1 / of_int m) = T_val j k (int (Suc i)) m / of_int m ^ Suc i"
    proof (cases "m < j + k")
      case True
      then have "T_val j k (int (Suc i)) m = 0" by (intro T_val_invalid) auto
      then show ?thesis unfolding T_rec_sum_over_budget [OF True] by simp
    next
      case budget: False
      have v: "\<not> (j < 0 \<or> k < 0 \<or> int (Suc i) < 2 * j + k \<or> m < j + k)"
        using False budget by simp
      show ?thesis unfolding T_val_Suc [OF v] by simp
    qed
    have "entry (P_layer (1 / of_int m) m (int (Suc i)) (P_rows m i)) (j, k)
          = T_result m (P_rows m i) j k * (1 / of_int m)
        \<or> (entry (P_layer (1 / of_int m) m (int (Suc i)) (P_rows m i)) (j, k) = 0
           \<and> (T_result m (P_rows m i) j k * (1 / of_int m) = 0 \<or> m < j + k))"
      using False by (auto simp: P_layer_lookup entry_def)
    then show ?thesis
      unfolding R using val by (auto simp: T_val_invalid)
  qed
qed

lemma fold_store_row:
  "fold (\<lambda>k cur. if c k then cur(k \<mapsto> f k) else cur) ks cur0 a =
     (if a \<in> set ks \<and> c a then Some (f a) else cur0 a)"
  by (induction ks arbitrary: cur0) auto

lemma S_cell_store:
  "S_cell n prev1 prev2 k =
     (\<lambda>cur. if \<not> n < 2 * k \<and> S_result n prev1 prev2 k \<noteq> 0
            then cur(k \<mapsto> S_result n prev1 prev2 k) else cur)"
  by (auto simp: S_cell_def S_result_def entry_def Let_def fun_eq_iff split: option.splits)

lemma S_row_lookup:
  "S_row n prev1 prev2 k =
     (if 1 \<le> k \<and> k \<le> n div 2 \<and> \<not> n < 2 * k \<and> S_result n prev1 prev2 k \<noteq> 0
      then Some (S_result n prev1 prev2 k) else None)"
  unfolding S_row_def Let_def S_cell_store
  by (subst fold_store_row) auto

lemma S_rows_entry:
  "entry (S_rows i) k = (if 0 \<le> k then of_nat (S_val i (nat k)) else 0)"
proof (induction i arbitrary: k rule: S_rows.induct)
  case 1
  show ?case by (auto simp: entry_def)
next
  case 2
  show ?case by (simp add: entry_def)
next
  case (3 i)
  let ?n = "int (Suc (Suc i))"
  show ?case
  proof (cases "1 \<le> k \<and> 2 * k \<le> ?n")
    case False
    then have "S_row ?n (S_rows (Suc i)) (S_rows i) k = None"
      by (auto simp: S_row_lookup)
    moreover have "0 \<le> k \<longrightarrow> S_val (Suc (Suc i)) (nat k) = 0"
    proof
      assume "0 \<le> k"
      then have "nat k = 0 \<or> Suc (Suc i) < 2 * nat k" using False by linarith
      then show "S_val (Suc (Suc i)) (nat k) = 0" by auto
    qed
    ultimately show ?thesis by (simp add: entry_None)
  next
    case True
    then have k: "nat k = Suc (nat (k - 1))" "2 * nat k \<le> Suc (Suc i)" "0 \<le> k - 1" by linarith+
    have "S_result ?n (S_rows (Suc i)) (S_rows i) k =
        of_int k * of_nat (S_val (Suc i) (nat k)) + of_int (?n - 1) * of_nat (S_val i (nat (k - 1)))"
      unfolding S_result_def "3.IH" using True by simp
    also have "\<dots> = of_nat (nat k * S_val (Suc i) (nat k) + Suc i * S_val i (nat k - 1))"
      using True k(1) by (simp add: algebra_simps)
    also have "nat k * S_val (Suc i) (nat k) + Suc i * S_val i (nat k - 1) = S_val (Suc (Suc i)) (nat k)"
      using k by simp
    finally have R: "S_result ?n (S_rows (Suc i)) (S_rows i) k = of_nat (S_val (Suc (Suc i)) (nat k))" .
    have "entry (S_row ?n (S_rows (Suc i)) (S_rows i)) k = S_result ?n (S_rows (Suc i)) (S_rows i) k"
      using True by (auto simp: S_row_lookup entry_def)
    then show ?thesis using R True by simp
  qed
qed

lemma upto_2_Suc: "[2..int (Suc (Suc (Suc i)))] = [2..int (Suc (Suc i))] @ [int (Suc (Suc (Suc i)))]"
  by (simp add: upto_rec2)

lemma fold_rows2:
  assumes "\<And>i. rows (Suc (Suc i)) = L (int (Suc (Suc i))) (rows (Suc i)) (rows i)"
  shows "fold (\<lambda>n (prev2, prev1). let cur = L n prev1 prev2 in (prev1, cur))
        [2..int (Suc (Suc i))] (rows 0, rows (Suc 0))
   = (rows (Suc i), rows (Suc (Suc i)))"
proof (induction i)
  case 0
  have "[2..int (Suc (Suc 0))] = [2]" by (simp add: upto_rec1)
  then show ?case by (simp add: Let_def assms)
next
  case (Suc i)
  show ?case
    unfolding upto_2_Suc [of i] fold_append comp_def Suc.IH
    by (simp add: Let_def assms)
qed

lemma assoc_stirling_bottomup_rows:
  "assoc_stirling_bottomup n = (if 2 \<le> n then S_rows (nat n) else S_rows 0)"
proof (cases "2 \<le> n")
  case True
  then have n: "n = int (Suc (Suc (nat (n - 2))))" by simp
  have "assoc_stirling_bottomup (int (Suc (Suc (nat (n - 2))))) = S_rows (Suc (Suc (nat (n - 2))))"
    unfolding assoc_stirling_bottomup_def
    using fold_rows2 [of S_rows S_row "nat (n - 2)"] by simp
  then show ?thesis using True n by (metis nat_int)
next
  case False
  then have "[2..n] = []" by simp
  then show ?thesis using False by (simp add: assoc_stirling_bottomup_def)
qed

section \<open>The probability functions as sums over the recurrences\<close>

lemma sum_list_upto: "sum_list (map f [a..b]) = sum f {a..b}"
  by (simp add: sum_list_distinct_conv_sum_set)

lemma mp_power_pos: "1 \<le> m \<Longrightarrow> 0 \<le> n \<Longrightarrow> mp_power (of_int m) n = Inr (of_int m ^ nat n)"
  by (simp add: mp_power_def power_int_def)

lemma mp_div_pow: "1 \<le> m \<Longrightarrow> mp_div x (of_int m ^ e) = Inr (x / of_int m ^ e)"
  by (simp add: mp_div_def)

lemma prob_r1_loop_sum:
  "T_memo_ok memo \<Longrightarrow>
     \<exists>memo'. prob_r1_loop m n js memo N = (N + sum_list (map (\<lambda>j. T_val j 0 n m) js), memo')
           \<and> T_memo_ok memo'"
proof (induction js arbitrary: memo N)
  case Nil
  then show ?case by simp
next
  case (Cons j js)
  obtain t memo1 where c: "T j 0 n m (Some memo) = (t, memo1)" by force
  have t: "t = T_val j 0 n m" and o: "T_memo_ok memo1"
    using T_memo_correct [OF Cons.prems, of j 0 n m] c by simp_all
  show ?case using Cons.IH [OF o, of "N + t"] c t by (simp add: add.assoc)
qed

lemma prob_r1_value:
  assumes "1 \<le> m" "0 \<le> n"
  shows "prob_r1 m n = Inr ((\<Sum>j = 1..n div 2. T_val j 0 n m) / of_int m ^ nat n)"
proof -
  have "T_memo_ok Map.empty" by (simp add: T_memo_ok_def)
  then obtain memo' where
    "prob_r1_loop m n [1..n div 2] Map.empty 0 = (0 + sum_list (map (\<lambda>j. T_val j 0 n m) [1..n div 2]), memo')"
    using prob_r1_loop_sum by blast
  then show ?thesis
    using assms by (simp add: prob_r1_def sum_list_upto mp_power_pos mp_div_pow)
qed

lemma prob_r1_bottomup_loop_sum:
  "prob_r1_bottomup_loop T_values js N = N + sum_list (map (\<lambda>j. entry T_values (j, 0)) js)"
  by (induction js arbitrary: N) (auto simp: entry_def split: option.splits)

lemma prob_r1_bottomup_value:
  assumes "1 \<le> m" "0 \<le> n"
  shows "prob_r1_bottomup m n = Inr ((\<Sum>j = 1..n div 2. T_val j 0 n m) / of_int m ^ nat n)"
proof (cases "n = 0")
  case True
  then show ?thesis using assms by (simp add: prob_r1_bottomup_def mp_power_def mp_div_def)
next
  case False
  then have n: "1 \<le> n" "int (nat n) = n" using assms by simp_all
  have "\<And>j. entry (T_bottomup n m) (j, 0) = T_val j 0 n m"
    using T_rows_entry [of m "nat n"] assms n by (simp add: T_bottomup_rows)
  then show ?thesis
    using assms
    by (simp add: prob_r1_bottomup_def prob_r1_bottomup_loop_sum sum_list_upto mp_power_pos mp_div_pow)
qed

lemma prob_r2_float_loop_sum:
  "1 \<le> m \<Longrightarrow> P_memo_ok memo \<Longrightarrow>
     prob_r2_float_loop m n js memo r =
       Inr (r + sum_list (map (\<lambda>j. T_val j 0 n m / of_int m ^ nat n) js))"
proof (induction js arbitrary: memo r)
  case Nil
  then show ?case by simp
next
  case (Cons j js)
  obtain memo1 where c: "P j 0 n m (Some memo) = Inr (T_val j 0 n m / of_int m ^ nat n, memo1)"
    and o: "P_memo_ok memo1"
    using P_memo_correct [OF Cons.prems, of j 0 n] by blast
  show ?case using Cons.IH [OF Cons.prems(1) o] c by (simp add: add.assoc)
qed

lemma prob_r2_float_value:
  assumes "1 \<le> m"
  shows "prob_r2_float m n = Inr ((\<Sum>j = 1..n div 2. T_val j 0 n m) / of_int m ^ nat n)"
proof -
  have "P_memo_ok Map.empty" by (simp add: P_memo_ok_def)
  then show ?thesis
    using assms
    by (simp add: prob_r2_float_def prob_r2_float_loop_sum sum_list_upto sum_divide_distrib)
qed

lemma prob_r2_bottomup_float_loop_sum:
  "prob_r2_bottomup_float_loop P_values js r = r + sum_list (map (\<lambda>j. entry P_values (j, 0)) js)"
  by (induction js arbitrary: r) (auto simp: entry_def split: option.splits)

lemma prob_r2_bottomup_float_value:
  assumes "1 \<le> m" "0 \<le> n"
  shows "prob_r2_bottomup_float m n = Inr ((\<Sum>j = 1..n div 2. T_val j 0 n m) / of_int m ^ nat n)"
proof (cases "n = 0")
  case True
  then show ?thesis using assms by (simp add: prob_r2_bottomup_float_def P_bottomup_def mp_div_def)
next
  case False
  then have n: "1 \<le> n" "int (nat n) = n" using assms by simp_all
  have p: "P_bottomup n m = Inr (P_rows m (nat n))" using n assms by (intro P_bottomup_rows) auto
  have "\<And>j. entry (P_rows m (nat n)) (j, 0) = T_val j 0 n m / of_int m ^ nat n"
    using P_rows_entry [of m "nat n"] assms n by simp
  then show ?thesis
    by (simp add: prob_r2_bottomup_float_def p prob_r2_bottomup_float_loop_sum sum_list_upto
          sum_divide_distrib)
qed

lemma prob_r3_memo_loop_sum:
  "0 \<le> n \<Longrightarrow> (\<And>k. k \<in> set ks \<Longrightarrow> 0 \<le> k) \<Longrightarrow> S_memo_ok memo \<Longrightarrow>
     prob_r3_memo_loop m n ks memo tot =
       Some (Inr (tot + sum_list (map (\<lambda>k. (of_int m gchoose nat k) * fact (nat k)
                                            * of_nat (S_val (nat n) (nat k))) ks)))"
proof (induction ks arbitrary: memo tot)
  case Nil
  then show ?case by simp
next
  case (Cons k ks)
  have k: "0 \<le> k" using Cons.prems(2) by simp
  obtain memo1 where
    c: "assoc_stirling n k (Some memo) = Some (Inr (of_nat (S_val (nat n) (nat k)), memo1))"
    and o: "S_memo_ok memo1"
    using assoc_stirling_correct [OF Cons.prems(1) k Cons.prems(3)] by blast
  have IH: "\<And>tot. prob_r3_memo_loop m n ks memo1 tot =
       Some (Inr (tot + sum_list (map (\<lambda>k. (of_int m gchoose nat k) * fact (nat k)
                                            * of_nat (S_val (nat n) (nat k))) ks)))"
    using Cons.prems by (intro Cons.IH o) simp_all
  show ?case
    using k by (simp add: c IH mp_factorial_def mp_binomial_def Let_def add.assoc)
qed

lemma prob_r3_memo_value:
  assumes "1 \<le> m" "0 \<le> n"
  shows "prob_r3_memo m n =
    Some (Inr ((\<Sum>k = 1..n div 2. (of_int m gchoose nat k) * fact (nat k)
                  * of_nat (S_val (nat n) (nat k))) / of_int m ^ nat n))"
proof -
  have "S_memo_ok Map.empty" by (simp add: S_memo_ok_def)
  then have "prob_r3_memo_loop m n [1..n div 2] Map.empty 0 =
       Some (Inr (0 + sum_list (map (\<lambda>k. (of_int m gchoose nat k) * fact (nat k)
                                            * of_nat (S_val (nat n) (nat k))) [1..n div 2])))"
    using assms by (intro prob_r3_memo_loop_sum) auto
  then show ?thesis
    using assms by (simp add: prob_r3_memo_def sum_list_upto mp_power_pos mp_div_pow)
qed

lemma prob_r3_bottomup_loop_sum:
  "(\<And>k. k \<in> set ks \<Longrightarrow> 0 \<le> k) \<Longrightarrow>
     prob_r3_bottomup_loop m sv ks tot =
       Inr (tot + sum_list (map (\<lambda>k. (of_int m gchoose nat k) * fact (nat k) * entry sv k) ks))"
proof (induction ks arbitrary: tot)
  case Nil
  then show ?case by simp
next
  case (Cons k ks)
  have k: "0 \<le> k" using Cons.prems by simp
  have IH: "\<And>tot. prob_r3_bottomup_loop m sv ks tot =
       Inr (tot + sum_list (map (\<lambda>k. (of_int m gchoose nat k) * fact (nat k) * entry sv k) ks))"
    using Cons.prems by (intro Cons.IH) simp_all
  show ?case
    using k by (cases "sv k")
      (simp_all add: IH mp_factorial_def mp_binomial_def Let_def add.assoc entry_def)
qed

lemma prob_r3_bottomup_value:
  assumes "1 \<le> m" "0 \<le> n"
  shows "prob_r3_bottomup m n =
    Inr ((\<Sum>k = 1..n div 2. (of_int m gchoose nat k) * fact (nat k)
                  * of_nat (S_val (nat n) (nat k))) / of_int m ^ nat n)"
proof -
  have loop: "prob_r3_bottomup_loop m (assoc_stirling_bottomup n) [1..n div 2] 0 =
       Inr (0 + sum_list (map (\<lambda>k. (of_int m gchoose nat k) * fact (nat k)
                                 * entry (assoc_stirling_bottomup n) k) [1..n div 2]))"
    by (intro prob_r3_bottomup_loop_sum) auto
  have "(\<Sum>k = 1..n div 2. (of_int m gchoose nat k) * fact (nat k) * entry (assoc_stirling_bottomup n) k)
      = (\<Sum>k = 1..n div 2. (of_int m gchoose nat k) * fact (nat k) * of_nat (S_val (nat n) (nat k)))"
  proof (cases "2 \<le> n")
    case True
    show ?thesis
      by (rule sum.cong) (use True in \<open>simp_all add: assoc_stirling_bottomup_rows S_rows_entry\<close>)
  next
    case False
    then have "{1..n div 2} = {}" by auto
    then show ?thesis by simp
  qed
  then show ?thesis
    using assms by (simp add: prob_r3_bottomup_def loop sum_list_upto mp_power_pos mp_div_pow)
qed

section \<open>The counts never exceed the number of assignments\<close>

lemma T_val_nonneg: "0 \<le> T_val j k n m"
proof (induction j k n m rule: T_val.induct)
  case (1 j k n m)
  show ?case
  proof (cases "j < 0 \<or> k < 0 \<or> n < 2 * j + k \<or> m < j + k")
    case True
    then show ?thesis by (simp add: T_val_invalid)
  next
    case valid: False
    show ?thesis
    proof (cases "j = 0 \<and> k = 0 \<and> n = 0")
      case True
      then show ?thesis using valid by (simp add: T_val_base)
    next
      case False
      have "0 \<le> of_int j * T_val j k (n - 1) m"
        using valid "1.IH"(1) [OF valid False] by simp
      moreover have "0 \<le> of_int (k + 1) * T_val (j - 1) (k + 1) (n - 1) m"
        using valid "1.IH"(2) [OF valid False] by simp
      moreover have "0 \<le> of_int (m - j - k + 1) * T_val j (k - 1) (n - 1) m"
        using valid "1.IH"(3) [OF valid False] by simp
      ultimately show ?thesis unfolding T_val_rec [OF valid False] by linarith
    qed
  qed
qed

lemma T_val_coef1: "0 \<le> of_int j * T_val j k n m"
  by (cases "j < 0") (simp_all add: T_val_invalid T_val_nonneg)

lemma T_val_coef2: "0 \<le> of_int k * T_val j k n m"
  by (cases "k < 0") (simp_all add: T_val_invalid T_val_nonneg)

lemma T_val_coef3: "0 \<le> of_int (m - j - k) * T_val j k n m"
  by (cases "m < j + k") (simp_all add: T_val_invalid T_val_nonneg)

lemma T_val_coef_sum:
  "of_int j * T_val j k n m + of_int k * T_val j k n m + of_int (m - j - k) * T_val j k n m
   = of_int m * T_val j k n m"
  by (simp add: algebra_simps)

lemma T_val_step_le:
  "T_val j k (int (Suc i)) m \<le>
     of_int j * T_val j k (int i) m + of_int (k + 1) * T_val (j - 1) (k + 1) (int i) m
     + of_int (m - j - (k - 1)) * T_val j (k - 1) (int i) m"
proof (cases "j < 0 \<or> k < 0 \<or> int (Suc i) < 2 * j + k \<or> m < j + k")
  case True
  have "0 \<le> of_int j * T_val j k (int i) m + of_int (k + 1) * T_val (j - 1) (k + 1) (int i) m
     + of_int (m - j - (k - 1)) * T_val j (k - 1) (int i) m"
    using T_val_coef1 [of j k "int i" m] T_val_coef2 [of "k + 1" "j - 1" "int i" m]
      T_val_coef3 [of m j "k - 1" "int i"] by linarith
  then show ?thesis using True by (simp add: T_val_invalid)
next
  case False
  have e: "m - j - (k - 1) = m - j - k + 1" by simp
  show ?thesis unfolding T_val_Suc [OF False] e by simp
qed

lemma T_val_zero_level: "T_val j k 0 m \<le> (if (j, k) = (0, 0) then 1 else 0)"
proof (cases "j = 0 \<and> k = 0")
  case True
  then show ?thesis by (cases "m < 0") (simp_all add: T_val_invalid T_val_base)
next
  case False
  then have "j < 0 \<or> k < 0 \<or> 0 < 2 * j + k" by linarith
  then have "T_val j k 0 m = 0" by (intro T_val_invalid) auto
  then show ?thesis by simp
qed

lemma T_val_sum_le:
  assumes "0 \<le> m"
  shows "finite A \<Longrightarrow> (\<Sum>p\<in>A. T_val (fst p) (snd p) (int i) m) \<le> of_int m ^ i"
proof (induction i arbitrary: A)
  case 0
  have "(\<Sum>p\<in>A. T_val (fst p) (snd p) (int 0) m) \<le> (\<Sum>p\<in>A. if p = (0, 0) then 1 else 0)"
    by (rule sum_mono) (use T_val_zero_level in \<open>simp add: prod_eq_iff\<close>)
  also have "\<dots> \<le> 1" using 0 by (simp add: sum.delta)
  finally show ?case by simp
next
  case (Suc i)
  let ?f = "\<lambda>p. T_val (fst p) (snd p) (int i) m"
  let ?g1 = "\<lambda>p. of_int (fst p) * ?f p"
  let ?g2 = "\<lambda>p. of_int (snd p) * ?f p"
  let ?g3 = "\<lambda>p. of_int (m - fst p - snd p) * ?f p"
  let ?h2 = "\<lambda>p :: int \<times> int. (fst p - 1, snd p + 1)"
  let ?h3 = "\<lambda>p :: int \<times> int. (fst p, snd p - 1)"
  let ?B = "A \<union> ?h2 ` A \<union> ?h3 ` A"
  have finB: "finite ?B" using Suc.prems by simp
  have i2: "inj_on ?h2 A" by (auto simp: inj_on_def prod_eq_iff)
  have i3: "inj_on ?h3 A" by (auto simp: inj_on_def prod_eq_iff)
  have "(\<Sum>p\<in>A. T_val (fst p) (snd p) (int (Suc i)) m)
      \<le> (\<Sum>p\<in>A. ?g1 p + ?g2 (?h2 p) + ?g3 (?h3 p))"
    by (rule sum_mono) (use T_val_step_le in simp)
  also have "\<dots> = sum ?g1 A + sum ?g2 (?h2 ` A) + sum ?g3 (?h3 ` A)"
    by (simp add: sum.distrib sum.reindex [OF i2] sum.reindex [OF i3])
  also have "\<dots> \<le> sum ?g1 ?B + sum ?g2 ?B + sum ?g3 ?B"
  proof -
    have "sum ?g1 A \<le> sum ?g1 ?B"
    proof (rule sum_mono2 [OF finB])
      show "A \<subseteq> ?B" by blast
      show "\<And>b. b \<in> ?B - A \<Longrightarrow> 0 \<le> ?g1 b" by (rule T_val_coef1)
    qed
    moreover have "sum ?g2 (?h2 ` A) \<le> sum ?g2 ?B"
    proof (rule sum_mono2 [OF finB])
      show "?h2 ` A \<subseteq> ?B" by blast
      show "\<And>b. b \<in> ?B - ?h2 ` A \<Longrightarrow> 0 \<le> ?g2 b" by (rule T_val_coef2)
    qed
    moreover have "sum ?g3 (?h3 ` A) \<le> sum ?g3 ?B"
    proof (rule sum_mono2 [OF finB])
      show "?h3 ` A \<subseteq> ?B" by blast
      show "\<And>b. b \<in> ?B - ?h3 ` A \<Longrightarrow> 0 \<le> ?g3 b" by (rule T_val_coef3)
    qed
    ultimately show ?thesis by linarith
  qed
  also have "\<dots> = (\<Sum>p\<in>?B. of_int m * ?f p)"
    unfolding sum.distrib [symmetric] by (rule sum.cong) (simp_all add: algebra_simps)
  also have "\<dots> = of_int m * sum ?f ?B" by (simp add: sum_distrib_left)
  also have "\<dots> \<le> of_int m * of_int m ^ i"
    using Suc.IH [OF finB] assms by (intro mult_left_mono) simp_all
  finally show ?case by simp
qed

lemma T_val_le_pow:
  assumes "0 \<le> m" "0 \<le> n"
  shows "T_val j k n m \<le> of_int m ^ nat n"
  using T_val_sum_le [OF assms(1), of "{(j, k)}" "nat n"] assms(2) by simp

lemma T_val_row_sum_le:
  assumes "0 \<le> m" "0 \<le> n"
  shows "(\<Sum>j = a..b. T_val j 0 n m) \<le> of_int m ^ nat n"
proof -
  have "(\<Sum>j = a..b. T_val j 0 n m) = (\<Sum>p\<in>(\<lambda>j. (j, 0)) ` {a..b}. T_val (fst p) (snd p) n m)"
    by (subst sum.reindex) (auto simp: inj_on_def)
  also have "\<dots> \<le> of_int m ^ nat n"
    using T_val_sum_le [OF assms(1), of "(\<lambda>j. (j, 0)) ` {a..b}" "nat n"] assms(2) by simp
  finally show ?thesis .
qed

section \<open>The probability recurrence is the normalised occupancy recurrence\<close>

lemma T_fresh_value: "fst (T j k n m None) = T_val j k n m"
proof -
  have "T j k n m None = T j k n m (Some Map.empty)"
    by (subst T.simps, subst (2) T.simps) simp
  moreover have "T_memo_ok Map.empty" by (simp add: T_memo_ok_def)
  ultimately show ?thesis using T_memo_correct [of Map.empty j k n m] by simp
qed

lemma P_fresh_value:
  assumes "1 \<le> m"
  shows "\<exists>pm. P j k n m None = Inr (T_val j k n m / of_int m ^ nat n, pm)"
proof -
  have "P j k n m None = P j k n m (Some Map.empty)"
    by (subst P.simps, subst (2) P.simps) simp
  moreover have "P_memo_ok Map.empty" by (simp add: P_memo_ok_def)
  ultimately show ?thesis using P_memo_correct [OF assms, of Map.empty j k n] by auto
qed

lemma T_val_ratio_bounds:
  assumes "1 \<le> m"
  shows "0 \<le> T_val j k n m / of_int m ^ nat n \<and> T_val j k n m / of_int m ^ nat n \<le> 1"
proof (cases "0 \<le> n")
  case True
  have "T_val j k n m \<le> of_int m ^ nat n" using assms True by (intro T_val_le_pow) simp_all
  moreover have "0 < (of_int m :: rat) ^ nat n" using assms by simp
  ultimately show ?thesis using T_val_nonneg [of j k n m] by (simp add: divide_le_eq)
next
  case False
  then have "j < 0 \<or> k < 0 \<or> n < 2 * j + k" by linarith
  then have "T_val j k n m = 0" by (intro T_val_invalid) auto
  then show ?thesis by simp
qed

text \<open>
  Claim C7.  With \<open>m \<ge> 1\<close>, the probability recurrence \<^verbatim>\<open>P\<close> (the recurrence of \<^verbatim>\<open>T\<close> with
  the factor \<open>1/m\<close> in every step, the same validity test and the same base case) returns
  \<open>T(j, k, n, m) / m\<^sup>n\<close> at every state, valid or not, and this value lies between \<open>0\<close> and
  \<open>1\<close>.  Both functions are run on a fresh memo table; arithmetic is exact.
\<close>

theorem P_is_normalised_T:
  assumes "1 \<le> m"
  shows "\<exists>p pm. P j k n m None = Inr (p, pm)
           \<and> p = fst (T j k n m None) / of_int m ^ nat n \<and> 0 \<le> p \<and> p \<le> 1"
  using P_fresh_value [OF assms, of j k n] T_val_ratio_bounds [OF assms, of j k n]
  by (auto simp: T_fresh_value)

theorem P_is_normalised_T_witness:
  "(1::int) \<le> 3 \<and> fst (T 1 2 5 3 None) = 60
   \<and> (\<exists>p pm. P 1 2 5 3 None = Inr (p, pm)
           \<and> p = fst (T 1 2 5 3 None) / of_int 3 ^ nat 5 \<and> 0 \<le> p \<and> p \<le> 1)"
proof -
  have "fst (T 1 2 5 3 None) = 60" by code_simp
  then show ?thesis using P_is_normalised_T [of 3 1 2 5] by simp
qed

section \<open>Occupancy counts in terms of associated Stirling numbers\<close>

lemma falling_0: "falling a 0 = 1"
  by (simp add: falling_def)

lemma falling_Suc: "falling a (Suc r) = falling a r * (a - of_nat r)"
  by (simp add: falling_def)

lemma falling_gchoose: "(a gchoose r) * fact r = falling a r"
  by (simp add: falling_def gbinomial_mult_fact')

lemma falling_zero:
  assumes "0 \<le> m" "m < int r"
  shows "falling (of_int m) r = 0"
proof -
  have mem: "nat m \<in> {0..<r}" using assms by auto
  have "(of_nat (nat m) :: rat) = of_int m" using assms(1) by (rule of_nat_nat)
  then have eq: "(of_int m :: rat) - of_nat (nat m) = 0" by (simp only: diff_self)
  show ?thesis unfolding falling_def
  proof (rule prod_zero)
    show "finite {0..<r}" by simp
    show "\<exists>a\<in>{0..<r}. rat_of_int m - of_nat a = 0"
      by (rule bexI [where x = "nat m" and P = "\<lambda>a. rat_of_int m - of_nat a = 0", OF eq mem])
  qed
qed

lemma Suc_times_choose_Suc: "Suc k * (n choose Suc k) = (n - k) * (n choose k)"
proof (cases n)
  case 0
  then show ?thesis by simp
next
  case (Suc n')
  have "Suc k * (Suc n' choose Suc k) = Suc n' * (n' choose k)"
    by (rule Suc_times_binomial)
  also have "\<dots> = (Suc n' - k) * (Suc n' choose k)"
    using binomial_absorb_comp [of "Suc n'" k] by simp
  finally show ?thesis unfolding Suc .
qed

lemma S_val_step:
  assumes "2 * j \<le> Suc M"
  shows "S_val (Suc M) j = j * S_val M j + (if j = 0 then 0 else M * S_val (M - 1) (j - 1))"
proof (cases M)
  case 0
  then show ?thesis by (cases j) simp_all
next
  case (Suc M')
  show ?thesis using assms unfolding Suc by (cases j) simp_all
qed

lemma S_binomial_step:
  assumes "2 * j + k \<le> Suc n"
  shows "(Suc n choose k) * S_val (Suc n - k) j =
     j * ((n choose k) * S_val (n - k) j)
     + (if j = 0 then 0 else Suc k * (n choose Suc k) * S_val (n - Suc k) (j - 1))
     + (if k = 0 then 0 else (n choose (k - 1)) * S_val (Suc n - k) j)"
proof (cases k)
  case 0
  have "S_val (Suc n) j = j * S_val n j + (if j = 0 then 0 else n * S_val (n - 1) (j - 1))"
    using assms 0 by (intro S_val_step) simp
  then show ?thesis unfolding 0 by simp
next
  case (Suc k')
  show ?thesis
  proof (cases "Suc k' \<le> n")
    case False
    then have "k' = n" "j = 0" using assms Suc by linarith+
    then show ?thesis unfolding Suc by simp
  next
    case True
    define M where "M = n - Suc k'"
    have M: "n - k' = Suc M" "Suc n - Suc k' = Suc M" "n - Suc (Suc k') = M - 1" "n - Suc k' = M"
      using True by (simp_all add: M_def)
    have st: "S_val (Suc M) j = j * S_val M j + (if j = 0 then 0 else M * S_val (M - 1) (j - 1))"
      using assms Suc True by (intro S_val_step) (simp add: M_def)
    have ch: "Suc (Suc k') * (n choose Suc (Suc k')) = M * (n choose Suc k')"
      using Suc_times_choose_Suc [of "Suc k'" n] by (simp add: M_def)
    have "(Suc n choose Suc k') * S_val (Suc M) j
        = (n choose k') * S_val (Suc M) j + (n choose Suc k') * S_val (Suc M) j"
      by (simp add: algebra_simps)
    also have "(n choose Suc k') * S_val (Suc M) j
        = j * ((n choose Suc k') * S_val M j)
          + (if j = 0 then 0 else M * (n choose Suc k') * S_val (M - 1) (j - 1))"
      unfolding st by (simp add: algebra_simps)
    finally show ?thesis unfolding Suc M ch [symmetric] by simp
  qed
qed

lemma T_val_closed:
  assumes "0 \<le> m"
  shows "T_val (int j) (int k) (int n) m =
     of_nat (n choose k) * of_nat (S_val (n - k) j) * falling (of_int m) (j + k)"
proof (induction n arbitrary: j k)
  case 0
  show ?case
  proof (cases "j = 0 \<and> k = 0")
    case True
    then show ?thesis using assms by (simp add: T_val_base falling_0)
  next
    case False
    then have "int 0 < 2 * int j + int k" by linarith
    then have "T_val (int j) (int k) (int 0) m = 0" by (intro T_val_invalid) blast
    moreover have "(0 choose k) = 0 \<or> S_val (0 - k) j = 0" using False by (cases k) auto
    ultimately show ?thesis by auto
  qed
next
  case (Suc n)
  let ?F = "falling (of_int m) (j + k)"
  show ?case
  proof (cases "int j < 0 \<or> int k < 0 \<or> int (Suc n) < 2 * int j + int k \<or> m < int j + int k")
    case True
    then have inv: "int (Suc n) < 2 * int j + int k \<or> m < int j + int k" by simp
    have L: "T_val (int j) (int k) (int (Suc n)) m = 0" using True by (rule T_val_invalid)
    have "of_nat (Suc n choose k) * of_nat (S_val (Suc n - k) j) * ?F = 0"
    proof (cases "m < int j + int k")
      case True
      then have "?F = 0" using assms by (intro falling_zero) simp_all
      then show ?thesis by simp
    next
      case False
      then have a: "Suc n < 2 * j + k" using inv by linarith
      show ?thesis
      proof (cases "Suc n < k")
        case True
        then show ?thesis by simp
      next
        case False
        then have "Suc n - k < 2 * j" using a by linarith
        then have "S_val (Suc n - k) j = 0" by (rule S_val_small)
        then show ?thesis by simp
      qed
    qed
    with L show ?thesis by simp
  next
    case valid: False
    then have v: "2 * j + k \<le> Suc n" "int j + int k \<le> m" by linarith+
    have t1: "of_int (int j) * T_val (int j) (int k) (int n) m
        = of_nat (j * ((n choose k) * S_val (n - k) j)) * ?F"
      unfolding Suc.IH by simp
    have t2: "of_int (int k + 1) * T_val (int j - 1) (int k + 1) (int n) m
        = of_nat (if j = 0 then 0 else Suc k * (n choose Suc k) * S_val (n - Suc k) (j - 1)) * ?F"
    proof (cases j)
      case 0
      then have "T_val (int j - 1) (int k + 1) (int n) m = 0" by (intro T_val_invalid) simp
      then show ?thesis using 0 by simp
    next
      case (Suc j')
      have "T_val (int j - 1) (int k + 1) (int n) m = T_val (int j') (int (Suc k)) (int n) m"
        unfolding Suc by (simp add: add.commute)
      also have "\<dots> = of_nat (n choose Suc k) * of_nat (S_val (n - Suc k) j') * falling (of_int m) (j' + Suc k)"
        by (rule Suc.IH)
      finally show ?thesis unfolding Suc by (simp add: algebra_simps)
    qed
    have t3: "of_int (m - int j - int k + 1) * T_val (int j) (int k - 1) (int n) m
        = of_nat (if k = 0 then 0 else (n choose (k - 1)) * S_val (Suc n - k) j) * ?F"
    proof (cases k)
      case 0
      then have "T_val (int j) (int k - 1) (int n) m = 0" by (intro T_val_invalid) simp
      then show ?thesis using 0 by simp
    next
      case (Suc k')
      have "T_val (int j) (int k - 1) (int n) m = T_val (int j) (int k') (int n) m"
        unfolding Suc by simp
      also have "\<dots> = of_nat (n choose k') * of_nat (S_val (n - k') j) * falling (of_int m) (j + k')"
        by (rule Suc.IH)
      finally have "T_val (int j) (int k - 1) (int n) m
          = of_nat (n choose k') * of_nat (S_val (n - k') j) * falling (of_int m) (j + k')" .
      moreover have "falling (of_int m) (j + k) = falling (of_int m) (j + k') * (of_int m - of_nat (j + k'))"
        unfolding Suc using falling_Suc [of "of_int m" "j + k'"] by simp
      moreover have "(of_int (m - int j - int k + 1) :: rat) = of_int m - of_nat (j + k')"
        unfolding Suc by simp
      ultimately show ?thesis unfolding Suc by simp
    qed
    have "T_val (int j) (int k) (int (Suc n)) m
        = of_int (int j) * T_val (int j) (int k) (int n) m
          + of_int (int k + 1) * T_val (int j - 1) (int k + 1) (int n) m
          + of_int (m - int j - int k + 1) * T_val (int j) (int k - 1) (int n) m"
      by (rule T_val_Suc [OF valid])
    also have "\<dots> = of_nat (j * ((n choose k) * S_val (n - k) j)
          + (if j = 0 then 0 else Suc k * (n choose Suc k) * S_val (n - Suc k) (j - 1))
          + (if k = 0 then 0 else (n choose (k - 1)) * S_val (Suc n - k) j)) * ?F"
      unfolding t1 t2 t3 by (simp only: of_nat_add distrib_right)
    also have "\<dots> = of_nat ((Suc n choose k) * S_val (Suc n - k) j) * ?F"
      unfolding S_binomial_step [OF v(1)] ..
    finally show ?thesis by simp
  qed
qed

lemma T_val_Stirling:
  assumes "0 \<le> m" "0 \<le> n" "0 \<le> j"
  shows "T_val j 0 n m = (of_int m gchoose nat j) * fact (nat j) * of_nat (S_val (nat n) (nat j))"
proof -
  have "T_val (int (nat j)) (int 0) (int (nat n)) m =
      of_nat (nat n choose 0) * of_nat (S_val (nat n - 0) (nat j)) * falling (of_int m) (nat j + 0)"
    by (rule T_val_closed [OF assms(1)])
  then show ?thesis using assms by (simp add: falling_gchoose [symmetric])
qed

lemma prob_r1_sum_Stirling:
  assumes "0 \<le> m" "0 \<le> n"
  shows "(\<Sum>j = 1..n div 2. T_val j 0 n m)
       = (\<Sum>k = 1..n div 2. (of_int m gchoose nat k) * fact (nat k) * of_nat (S_val (nat n) (nat k)))"
  by (rule sum.cong) (use assms in \<open>simp_all add: T_val_Stirling\<close>)

section \<open>The direct formula counts the same assignments\<close>

lemma D_term_beyond: "n < j \<Longrightarrow> D_term m n j = 0"
  by (simp add: D_term_def)

lemma D_sum_extend: "n \<le> N \<Longrightarrow> D_sum m n = (\<Sum>j\<le>N. D_term m n j)"
  unfolding D_sum_def
  by (rule sum.mono_neutral_left) (auto simp: D_term_beyond)

lemma D_term_0: "D_term m n 0 = of_nat m ^ n"
  by (simp add: D_term_def)

lemma binomial_absorb_rat:
  "(of_nat (Suc m) :: rat) * of_nat (m choose j) = of_nat (Suc j) * of_nat (Suc m choose Suc j)"
proof -
  have "Suc m * (m choose j) = Suc j * (Suc m choose Suc j)"
    using Suc_times_binomial [of j m] by simp
  then show ?thesis by (metis of_nat_mult)
qed

lemma binomial_absorb_pred_rat:
  "(of_nat n :: rat) * of_nat ((n - 1) choose j) = of_nat (Suc j) * of_nat (n choose Suc j)"
proof (cases n)
  case 0
  then show ?thesis by simp
next
  case (Suc n')
  show ?thesis unfolding Suc using binomial_absorb_rat [of n' j] by simp
qed

lemma D_term_step:
  assumes "j \<le> n"
  shows "D_term (Suc m) (Suc n) (Suc j) =
     of_nat (Suc m) * (D_term (Suc m) n (Suc j) - D_term m n j + of_nat n * D_term m (n - 1) j)"
proof -
  define x :: rat where "x = of_nat m - of_nat j"
  define s :: rat where "s = (- 1) ^ j"
  define B :: rat where "B = of_nat (Suc m choose Suc j) * fact (Suc j)"
  have xs: "(of_nat (Suc m) :: rat) - of_nat (Suc j) = x" by (simp add: x_def)
  have m1: "(of_nat (Suc m) :: rat) = x + of_nat (Suc j)" by (simp add: x_def)
  have L: "D_term (Suc m) (Suc n) (Suc j) = - s * B * of_nat (Suc n choose Suc j) * x ^ (n - j)"
    unfolding D_term_def xs by (simp add: s_def B_def)
  have a: "of_nat (Suc m) * D_term (Suc m) n (Suc j)
      = - s * B * (of_nat (Suc m) * of_nat (n choose Suc j)) * x ^ (n - Suc j)"
    unfolding D_term_def xs by (simp add: s_def B_def)
  have "of_nat (Suc m) * D_term m n j
      = s * (of_nat (Suc m) * of_nat (m choose j)) * fact j * of_nat (n choose j) * x ^ (n - j)"
    unfolding D_term_def x_def s_def by simp
  also have "\<dots> = s * B * of_nat (n choose j) * x ^ (n - j)"
    unfolding binomial_absorb_rat B_def by simp
  finally have b: "of_nat (Suc m) * D_term m n j = s * B * of_nat (n choose j) * x ^ (n - j)" .
  have "of_nat (Suc m) * (of_nat n * D_term m (n - 1) j)
      = s * (of_nat (Suc m) * of_nat (m choose j)) * fact j
          * (of_nat n * of_nat ((n - 1) choose j)) * x ^ (n - 1 - j)"
    unfolding D_term_def x_def s_def by simp
  also have "\<dots> = s * B * (of_nat (Suc j) * of_nat (n choose Suc j)) * x ^ (n - 1 - j)"
    unfolding binomial_absorb_rat binomial_absorb_pred_rat B_def by simp
  finally have c: "of_nat (Suc m) * (of_nat n * D_term m (n - 1) j)
      = s * B * (of_nat (Suc j) * of_nat (n choose Suc j)) * x ^ (n - 1 - j)" .
  have R: "of_nat (Suc m) * (D_term (Suc m) n (Suc j) - D_term m n j + of_nat n * D_term m (n - 1) j)
      = - s * B * (of_nat (Suc m) * of_nat (n choose Suc j)) * x ^ (n - Suc j)
        - s * B * of_nat (n choose j) * x ^ (n - j)
        + s * B * (of_nat (Suc j) * of_nat (n choose Suc j)) * x ^ (n - 1 - j)"
    unfolding a [symmetric] b [symmetric] c [symmetric] by (simp add: algebra_simps)
  have eq: "- s * B * of_nat (Suc n choose Suc j) * x ^ (n - j)
      = - s * B * (of_nat (Suc m) * of_nat (n choose Suc j)) * x ^ (n - Suc j)
        - s * B * of_nat (n choose j) * x ^ (n - j)
        + s * B * (of_nat (Suc j) * of_nat (n choose Suc j)) * x ^ (n - 1 - j)"
  proof (cases "j = n")
    case True
    show ?thesis unfolding True by simp
  next
    case False
    then have "n - j = Suc (n - Suc j)" "n - 1 - j = n - Suc j" using assms by simp_all
    then obtain e where e: "n - j = Suc e" "n - Suc j = e" "n - 1 - j = e" by blast
    have pas: "(of_nat (Suc n choose Suc j) :: rat) = of_nat (n choose j) + of_nat (n choose Suc j)"
      by simp
    show ?thesis unfolding e pas m1 by (simp add: algebra_simps)
  qed
  show ?thesis unfolding L R by (rule eq)
qed

lemma D_sum_rec:
  "D_sum (Suc m) (Suc n) =
     of_nat (Suc m) * (D_sum (Suc m) n - D_sum m n + of_nat n * D_sum m (n - 1))"
proof -
  have A: "D_sum (Suc m) (Suc n)
      = D_term (Suc m) (Suc n) 0 + (\<Sum>j\<le>n. D_term (Suc m) (Suc n) (Suc j))"
    unfolding D_sum_def by (rule sum.atMost_Suc_shift)
  have "D_sum (Suc m) n = (\<Sum>j\<le>Suc n. D_term (Suc m) n j)"
    by (rule D_sum_extend) simp
  also have "\<dots> = D_term (Suc m) n 0 + (\<Sum>j\<le>n. D_term (Suc m) n (Suc j))"
    by (rule sum.atMost_Suc_shift)
  finally have B: "D_sum (Suc m) n = D_term (Suc m) n 0 + (\<Sum>j\<le>n. D_term (Suc m) n (Suc j))" .
  have C: "of_nat n * D_sum m (n - 1) = (\<Sum>j\<le>n. of_nat n * D_term m (n - 1) j)"
  proof (cases n)
    case 0
    then show ?thesis by simp
  next
    case (Suc n')
    have "D_sum m (n - 1) = (\<Sum>j\<le>n. D_term m (n - 1) j)"
      by (rule D_sum_extend) simp
    then show ?thesis by (simp add: sum_distrib_left)
  qed
  have "of_nat (Suc m) * (D_sum (Suc m) n - D_sum m n + of_nat n * D_sum m (n - 1))
      = of_nat (Suc m) * D_term (Suc m) n 0
        + (\<Sum>j\<le>n. of_nat (Suc m)
             * (D_term (Suc m) n (Suc j) - D_term m n j + of_nat n * D_term m (n - 1) j))"
    unfolding B C D_sum_def [of m n]
    by (simp add: sum_distrib_left sum.distrib sum_subtractf algebra_simps)
  also have "of_nat (Suc m) * D_term (Suc m) n 0 = D_term (Suc m) (Suc n) 0"
    by (simp add: D_term_0)
  also have "(\<Sum>j\<le>n. of_nat (Suc m)
             * (D_term (Suc m) n (Suc j) - D_term m n j + of_nat n * D_term m (n - 1) j))
      = (\<Sum>j\<le>n. D_term (Suc m) (Suc n) (Suc j))"
    by (rule sum.cong) (simp_all add: D_term_step)
  finally show ?thesis unfolding A by simp
qed

lemma S_val_step_all:
  "S_val (Suc n) j = j * S_val n j + (if j = 0 then 0 else n * S_val (n - 1) (j - 1))"
proof (cases "2 * j \<le> Suc n")
  case True
  then show ?thesis by (rule S_val_step)
next
  case False
  then have a: "S_val (Suc n) j = 0" "S_val n j = 0" "j \<noteq> 0"
    by (simp_all add: S_val_small)
  have "n * S_val (n - 1) (j - 1) = 0"
  proof (cases n)
    case 0
    then show ?thesis by simp
  next
    case (Suc n')
    then have "n - 1 < 2 * (j - 1)" using False by linarith
    then show ?thesis by (simp add: S_val_small)
  qed
  then show ?thesis using a by simp
qed

lemma falling_Suc_shift: "falling a (Suc j) = a * falling (a - 1) j"
  unfolding falling_def
  by (simp add: prod.atLeast0_lessThan_Suc_shift algebra_simps del: prod.op_ivl_Suc)

lemma falling_shift: "falling (of_nat (Suc m)) (Suc j) = of_nat (Suc m) * falling (of_nat m) j"
  using falling_Suc_shift [of "of_nat (Suc m)" j] by simp

lemma falling_times_index:
  "falling (of_nat (Suc m)) j * of_nat j
     = of_nat (Suc m) * (falling (of_nat (Suc m)) j - falling (of_nat m) j)"
proof -
  have "falling (of_nat (Suc m)) (Suc j) = falling (of_nat (Suc m)) j * (of_nat (Suc m) - of_nat j)"
    by (rule falling_Suc)
  then have "falling (of_nat (Suc m)) j * of_nat j
      = of_nat (Suc m) * falling (of_nat (Suc m)) j - falling (of_nat (Suc m)) (Suc j)"
    by (simp add: algebra_simps)
  then show ?thesis unfolding falling_shift by (simp add: algebra_simps)
qed

lemma E_sum_extend:
  assumes "n \<le> N"
  shows "E_sum m n = (\<Sum>j\<le>N. falling (of_nat m) j * of_nat (S_val n j))"
  unfolding E_sum_def
  by (rule sum.mono_neutral_left) (use assms in \<open>auto simp: S_val_small\<close>)

lemma sum_linear_combination:
  fixes a :: rat
  shows "(\<Sum>j\<in>A. a * (f j - g j) + h j) = a * (sum f A - sum g A) + sum h A"
  by (simp add: sum.distrib sum_distrib_left sum_subtractf right_diff_distrib)

lemma E_sum_rec:
  "E_sum (Suc m) (Suc n) =
     of_nat (Suc m) * (E_sum (Suc m) n - E_sum m n + of_nat n * E_sum m (n - 1))"
proof -
  let ?a = "of_nat (Suc m) :: rat"
  have t: "\<And>j. falling ?a j * of_nat (S_val (Suc n) j)
      = ?a * (falling ?a j * of_nat (S_val n j) - falling (of_nat m) j * of_nat (S_val n j))
        + (if j = 0 then 0 else falling ?a j * (of_nat n * of_nat (S_val (n - 1) (j - 1))))"
  proof -
    fix j
    have "falling ?a j * of_nat (S_val (Suc n) j)
        = (falling ?a j * of_nat j) * of_nat (S_val n j)
          + (if j = 0 then 0 else falling ?a j * (of_nat n * of_nat (S_val (n - 1) (j - 1))))"
      unfolding S_val_step_all [of n j] by (simp add: algebra_simps)
    then show "falling ?a j * of_nat (S_val (Suc n) j)
      = ?a * (falling ?a j * of_nat (S_val n j) - falling (of_nat m) j * of_nat (S_val n j))
        + (if j = 0 then 0 else falling ?a j * (of_nat n * of_nat (S_val (n - 1) (j - 1))))"
      unfolding falling_times_index by (simp add: algebra_simps)
  qed
  have E1: "E_sum (Suc m) n = (\<Sum>j\<le>Suc n. falling ?a j * of_nat (S_val n j))"
    by (rule E_sum_extend) simp
  have E2: "E_sum m n = (\<Sum>j\<le>Suc n. falling (of_nat m) j * of_nat (S_val n j))"
    by (rule E_sum_extend) simp
  have E3: "of_nat n * E_sum m (n - 1)
      = (\<Sum>j\<le>n. of_nat n * (falling (of_nat m) j * of_nat (S_val (n - 1) j)))"
  proof (cases n)
    case 0
    then show ?thesis by simp
  next
    case (Suc n')
    have "E_sum m (n - 1) = (\<Sum>j\<le>n. falling (of_nat m) j * of_nat (S_val (n - 1) j))"
      by (rule E_sum_extend) simp
    then show ?thesis by (simp add: sum_distrib_left)
  qed
  have sh: "(\<Sum>j\<le>Suc n. if j = 0 then 0 else falling ?a j * (of_nat n * of_nat (S_val (n - 1) (j - 1))))
      = (\<Sum>j\<le>n. ?a * (of_nat n * (falling (of_nat m) j * of_nat (S_val (n - 1) j))))"
  proof -
    have "(\<Sum>j\<le>Suc n. if j = 0 then 0 else falling ?a j * (of_nat n * of_nat (S_val (n - 1) (j - 1))))
        = (\<Sum>j\<le>n. falling ?a (Suc j) * (of_nat n * of_nat (S_val (n - 1) j)))"
      by (subst sum.atMost_Suc_shift) (simp del: of_nat_Suc)
    also have "\<dots> = (\<Sum>j\<le>n. ?a * (of_nat n * (falling (of_nat m) j * of_nat (S_val (n - 1) j))))"
      by (rule sum.cong) (simp_all add: falling_shift del: of_nat_Suc)
    finally show ?thesis .
  qed
  have "E_sum (Suc m) (Suc n) = (\<Sum>j\<le>Suc n. falling ?a j * of_nat (S_val (Suc n) j))"
    by (simp add: E_sum_def)
  also have "\<dots> = (\<Sum>j\<le>Suc n.
        ?a * (falling ?a j * of_nat (S_val n j) - falling (of_nat m) j * of_nat (S_val n j))
        + (if j = 0 then 0 else falling ?a j * (of_nat n * of_nat (S_val (n - 1) (j - 1)))))"
    by (rule sum.cong [OF refl]) (rule t)
  also have "\<dots> = ?a * (E_sum (Suc m) n - E_sum m n)
      + (\<Sum>j\<le>Suc n. if j = 0 then 0 else falling ?a j * (of_nat n * of_nat (S_val (n - 1) (j - 1))))"
    unfolding E1 E2 by (rule sum_linear_combination)
  also have "\<dots> = ?a * (E_sum (Suc m) n - E_sum m n + of_nat n * E_sum m (n - 1))"
    unfolding sh E3 by (simp add: sum_distrib_left algebra_simps del: of_nat_Suc)
  finally show ?thesis .
qed

lemma D_sum_0_right: "D_sum m 0 = 1"
  by (simp add: D_sum_def D_term_def)

lemma E_sum_0_right: "E_sum m 0 = 1"
  by (simp add: E_sum_def falling_0)

lemma D_sum_0_left: "D_sum 0 (Suc n) = 0"
proof -
  have "D_sum 0 (Suc n) = D_term 0 (Suc n) 0 + (\<Sum>j\<le>n. D_term 0 (Suc n) (Suc j))"
    unfolding D_sum_def by (rule sum.atMost_Suc_shift)
  then show ?thesis by (simp add: D_term_def)
qed

lemma E_sum_0_left: "E_sum 0 (Suc n) = 0"
proof -
  have "\<And>j. falling (of_nat 0) j * of_nat (S_val (Suc n) j) = 0"
  proof -
    fix j show "falling (of_nat 0) j * of_nat (S_val (Suc n) j) = 0"
    proof (cases j)
      case 0
      then show ?thesis by (simp add: S_val_zero_left)
    next
      case (Suc j')
      have "falling (of_int 0) (Suc j') = 0" by (rule falling_zero) simp_all
      then show ?thesis unfolding Suc by simp
    qed
  qed
  then show ?thesis unfolding E_sum_def by (intro sum.neutral ballI)
qed

lemma D_sum_eq_E_sum: "D_sum m n = E_sum m n"
proof (induction n arbitrary: m rule: less_induct)
  case (less n)
  show ?case
  proof (cases n)
    case 0
    then show ?thesis by (simp add: D_sum_0_right E_sum_0_right)
  next
    case (Suc n')
    show ?thesis
    proof (cases m)
      case 0
      then show ?thesis unfolding Suc by (simp add: D_sum_0_left E_sum_0_left)
    next
      case m: (Suc m')
      have "n' < n" "n' - 1 < n" using Suc by simp_all
      then have "D_sum (Suc m') n' = E_sum (Suc m') n'" "D_sum m' n' = E_sum m' n'"
        "D_sum m' (n' - 1) = E_sum m' (n' - 1)"
        using less.IH by blast+
      then show ?thesis unfolding Suc m D_sum_rec E_sum_rec by simp
    qed
  qed
qed

lemma sum_int_from_0: "0 \<le> n \<Longrightarrow> (\<Sum>j = 0..n. f j) = (\<Sum>i\<le>nat n. f (int i))"
  by (rule sum.reindex_bij_witness [of _ int nat]) auto

lemma sum_int_from_1: "(\<Sum>k = 1..n. f k) = (\<Sum>i = 1..nat n. f (int i))"
  by (rule sum.reindex_bij_witness [of _ int nat]) auto

lemma prob_formula_D_sum:
  assumes "0 \<le> m" "0 \<le> n"
  shows "prob_formula m n 0 = D_sum (nat m) (nat n) / of_int m ^ nat n"
proof -
  have "(\<Sum>j = 0..n. (- 1) ^ nat (j - 0) * of_nat (nat j choose nat 0) * of_nat (nat m choose nat j)
        * of_nat (nat n choose nat j) * fact (nat j)
        * (if n - j = 0 then 1 else (of_int m - of_int j :: rat) ^ nat (n - j)))
      = (\<Sum>i\<le>nat n. D_term (nat m) (nat n) i)"
    unfolding sum_int_from_0 [OF assms(2)]
  proof (rule sum.cong [OF refl])
    fix i assume "i \<in> {..nat n}"
    then have e: "nat (n - int i) = nat n - i" by simp
    have "(if n - int i = 0 then 1 else (of_int m - of_int (int i) :: rat) ^ nat (n - int i))
        = (of_nat (nat m) - of_nat i) ^ (nat n - i)"
      using assms by (simp add: e)
    then show "(- 1) ^ nat (int i - 0) * of_nat (nat (int i) choose nat 0)
        * of_nat (nat m choose nat (int i)) * of_nat (nat n choose nat (int i)) * fact (nat (int i))
        * (if n - int i = 0 then 1 else (of_int m - of_int (int i) :: rat) ^ nat (n - int i))
      = D_term (nat m) (nat n) i"
      by (simp add: D_term_def)
  qed
  then show ?thesis by (simp add: prob_formula_def D_sum_def)
qed

lemma E_sum_Stirling:
  assumes "0 \<le> m" "1 \<le> n"
  shows "E_sum (nat m) (nat n)
     = (\<Sum>k = 1..n div 2. (of_int m gchoose nat k) * fact (nat k) * of_nat (S_val (nat n) (nat k)))"
proof -
  let ?g = "\<lambda>j. falling (of_nat (nat m)) j * (of_nat (S_val (nat n) j) :: rat)"
  have "E_sum (nat m) (nat n) = sum ?g {..nat n}" by (simp add: E_sum_def)
  also have "\<dots> = sum ?g {1..nat n div 2}"
  proof (rule sum.mono_neutral_right)
    show "\<forall>i\<in>{..nat n} - {1..nat n div 2}. ?g i = 0"
    proof
      fix i assume "i \<in> {..nat n} - {1..nat n div 2}"
      then have "i = 0 \<or> nat n < 2 * i" by auto
      then have "S_val (nat n) i = 0"
        using assms(2) by (auto simp: S_val_small S_val_zero_left)
      then show "?g i = 0" by simp
    qed
  qed auto
  also have "\<dots> = (\<Sum>i = 1..nat (n div 2). (of_int m gchoose i) * fact i * of_nat (S_val (nat n) i))"
    using assms by (simp add: falling_gchoose nat_div_distrib)
  also have "\<dots> = (\<Sum>k = 1..n div 2. (of_int m gchoose nat k) * fact (nat k)
        * of_nat (S_val (nat n) (nat k)))"
    unfolding sum_int_from_1 [of _ "n div 2"] by simp
  finally show ?thesis .
qed

lemma prob_value:
  assumes "1 \<le> m" "0 \<le> n"
  shows "prob m n 0 = Inr (D_sum (nat m) (nat n) / of_int m ^ nat n)"
  using prob_formula_value [of m n 0] prob_formula_D_sum [of m n] assms by simp

lemma prob_value_Stirling:
  assumes "1 \<le> m" "1 \<le> n"
  shows "prob m n 0 = Inr ((\<Sum>k = 1..n div 2. (of_int m gchoose nat k) * fact (nat k)
                  * of_nat (S_val (nat n) (nat k))) / of_int m ^ nat n)"
  using prob_value [of m n] E_sum_Stirling [of m n] assms by (simp add: D_sum_eq_E_sum)

lemma prob_zero_people: "1 \<le> m \<Longrightarrow> prob m 0 0 = Inr 1"
  using prob_value [of m 0] by (simp add: D_sum_0_right)

section \<open>Agreement of the variants, bounds and boundary values\<close>

lemma row_sum_ratio_bounds:
  assumes "1 \<le> m" "0 \<le> n"
  shows "0 \<le> (\<Sum>j = a..b. T_val j 0 n m) / of_int m ^ nat n
       \<and> (\<Sum>j = a..b. T_val j 0 n m) / of_int m ^ nat n \<le> 1"
proof -
  have "(\<Sum>j = a..b. T_val j 0 n m) \<le> of_int m ^ nat n"
    using assms by (intro T_val_row_sum_le) simp_all
  moreover have "0 \<le> (\<Sum>j = a..b. T_val j 0 n m)"
    by (intro sum_nonneg T_val_nonneg)
  moreover have "0 < (of_int m :: rat) ^ nat n" using assms by simp
  ultimately show ?thesis by (simp add: divide_le_eq)
qed

lemma recurrence_variants_agree:
  assumes "1 \<le> m" "0 \<le> n"
  shows "prob_r1_bottomup m n = prob_r1 m n"
    and "prob_r2_float m n = prob_r1 m n"
    and "prob_r2_bottomup_float m n = prob_r1 m n"
    and "prob_r3_memo m n = Some (prob_r1 m n)"
    and "prob_r3_bottomup m n = prob_r1 m n"
proof -
  have s: "(\<Sum>k = 1..n div 2. (of_int m gchoose nat k) * fact (nat k) * of_nat (S_val (nat n) (nat k)))
      = (\<Sum>j = 1..n div 2. T_val j 0 n m)"
    using assms by (intro prob_r1_sum_Stirling [symmetric]) simp_all
  show "prob_r1_bottomup m n = prob_r1 m n"
    using assms by (simp add: prob_r1_value prob_r1_bottomup_value)
  show "prob_r2_float m n = prob_r1 m n"
    using assms by (simp add: prob_r1_value prob_r2_float_value)
  show "prob_r2_bottomup_float m n = prob_r1 m n"
    using assms by (simp add: prob_r1_value prob_r2_bottomup_float_value)
  show "prob_r3_memo m n = Some (prob_r1 m n)"
    using assms by (simp add: prob_r1_value prob_r3_memo_value s)
  show "prob_r3_bottomup m n = prob_r1 m n"
    using assms by (simp add: prob_r1_value prob_r3_bottomup_value s)
qed

lemma direct_formula_agrees:
  assumes "1 \<le> m" "1 \<le> n"
  shows "prob m n 0 = prob_r1 m n"
proof -
  have "(\<Sum>k = 1..n div 2. (of_int m gchoose nat k) * fact (nat k) * of_nat (S_val (nat n) (nat k)))
      = (\<Sum>j = 1..n div 2. T_val j 0 n m)"
    using assms by (intro prob_r1_sum_Stirling [symmetric]) simp_all
  then show ?thesis using assms by (simp add: prob_value_Stirling prob_r1_value)
qed

lemma prob_r1_unit:
  assumes "1 \<le> m" "0 \<le> n"
  shows "unit_prob (prob_r1 m n)"
  using row_sum_ratio_bounds [OF assms, of 1 "n div 2"] assms
  by (simp add: prob_r1_value unit_prob_def)

lemma prob_unit:
  assumes "1 \<le> m" "0 \<le> n"
  shows "unit_prob (prob m n 0)"
proof (cases "n = 0")
  case True
  then show ?thesis using assms by (simp add: prob_zero_people unit_prob_def)
next
  case False
  then have "prob m n 0 = prob_r1 m n" using assms by (intro direct_formula_agrees) simp_all
  then show ?thesis using prob_r1_unit [OF assms] by simp
qed

text \<open>
  Claim C8.  For \<open>m \<ge> 1\<close> and \<open>n \<ge> 0\<close> every exposed probability function returns a number
  between \<open>0\<close> and \<open>1\<close>: the direct formula (at \<open>k = 0\<close>), the two \<^verbatim>\<open>T\<close> variants, the two
  \<^verbatim>\<open>P\<close> variants (in exact arithmetic) and the two associated-Stirling variants.  The sum
  of \<open>T(j, 0, n, m)\<close> over \<open>j\<close> is at most \<open>m\<^sup>n\<close>, and the other numerators are equal to it
  (or to \<open>1\<close>, for the direct formula at \<open>n = 0\<close>).
\<close>

theorem probabilities_in_unit_interval:
  assumes "1 \<le> m" "0 \<le> n"
  shows "unit_prob (prob m n 0)
       \<and> unit_prob (prob_r1 m n) \<and> unit_prob (prob_r1_bottomup m n)
       \<and> unit_prob (prob_r2_float m n) \<and> unit_prob (prob_r2_bottomup_float m n)
       \<and> (\<exists>r. prob_r3_memo m n = Some r \<and> unit_prob r) \<and> unit_prob (prob_r3_bottomup m n)"
  using prob_unit [OF assms] prob_r1_unit [OF assms] recurrence_variants_agree [OF assms]
  by simp

theorem probabilities_in_unit_interval_witness:
  "(1::int) \<le> 10 \<and> (0::int) \<le> 4 \<and> prob 10 4 0 = Inr (7 / 250)
   \<and> unit_prob (prob 10 4 0)
   \<and> unit_prob (prob_r1 10 4) \<and> unit_prob (prob_r1_bottomup 10 4)
   \<and> unit_prob (prob_r2_float 10 4) \<and> unit_prob (prob_r2_bottomup_float 10 4)
   \<and> (\<exists>r. prob_r3_memo 10 4 = Some r \<and> unit_prob r) \<and> unit_prob (prob_r3_bottomup 10 4)"
proof -
  have "prob 10 4 0 = Inr (7 / 250)" by code_simp
  then show ?thesis using probabilities_in_unit_interval [of 10 4] by simp
qed

text \<open>
  Claim C1 says that the five arbitrary-precision functions return the same value for
  every \<open>m \<ge> 1\<close> and \<open>n \<ge> 0\<close>.  At \<open>m = 10\<close>, \<open>n = 0\<close> the direct formula returns \<open>1\<close> and the four
  recurrence variants return \<open>0\<close>: their loops start at \<open>j = 1\<close> (\<open>k = 1\<close>) and never read the
  entry of the empty assignment, \<open>T(0, 0, 0, m) = 1\<close> or \<open>S(0, 0) = 1\<close>.
\<close>

theorem five_variants_at_zero_people:
  "prob 10 0 0 = Inr 1 \<and> prob_r1 10 0 = Inr 0 \<and> prob_r1_bottomup 10 0 = Inr 0
   \<and> prob_r3_memo 10 0 = Some (Inr 0) \<and> prob_r3_bottomup 10 0 = Inr 0"
  by (simp add: prob_zero_people prob_r1_value prob_r1_bottomup_value prob_r3_memo_value
        prob_r3_bottomup_value)

text \<open>From one person on, the five functions agree.\<close>

lemma five_variants_agree:
  assumes "1 \<le> m" "1 \<le> n"
  shows "prob_r1 m n = prob m n 0 \<and> prob_r1_bottomup m n = prob m n 0
       \<and> prob_r3_memo m n = Some (prob m n 0) \<and> prob_r3_bottomup m n = prob m n 0"
  using direct_formula_agrees [OF assms] recurrence_variants_agree [of m n] assms by simp

lemma boundary_one_person:
  assumes "1 \<le> m"
  shows "prob m 1 0 = Inr 0 \<and> prob_r1 m 1 = Inr 0 \<and> prob_r1_bottomup m 1 = Inr 0
       \<and> prob_r3_memo m 1 = Some (Inr 0) \<and> prob_r3_bottomup m 1 = Inr 0"
proof -
  have "prob_r1 m 1 = Inr 0" using assms by (simp add: prob_r1_value)
  then show ?thesis using five_variants_agree [OF assms, of 1] by simp
qed

lemma boundary_zero_people:
  assumes "1 \<le> m"
  shows "prob m 0 0 = Inr 1 \<and> prob_r1 m 0 = Inr 0 \<and> prob_r1_bottomup m 0 = Inr 0
       \<and> prob_r3_memo m 0 = Some (Inr 0) \<and> prob_r3_bottomup m 0 = Inr 0"
  using assms recurrence_variants_agree [of m 0]
  by (simp add: prob_zero_people prob_r1_value)

text \<open>
  Claim C3 says that every exposed probability function has the boundary values
  \<open>prob(m, 0) = 1\<close> and \<open>prob(m, 1) = 0\<close>.  At \<open>m = 7\<close> all functions return \<open>0\<close> for \<open>n = 1\<close>, and
  the direct formula returns \<open>1\<close> for \<open>n = 0\<close>; the four recurrence variants return \<open>0\<close> for
  \<open>n = 0\<close>.
\<close>

theorem boundary_values_at_seven_days:
  "prob 7 0 0 = Inr 1 \<and> prob 7 1 0 = Inr 0
   \<and> prob_r1 7 0 = Inr 0 \<and> prob_r1 7 1 = Inr 0
   \<and> prob_r1_bottomup 7 0 = Inr 0 \<and> prob_r1_bottomup 7 1 = Inr 0
   \<and> prob_r3_memo 7 0 = Some (Inr 0) \<and> prob_r3_memo 7 1 = Some (Inr 0)
   \<and> prob_r3_bottomup 7 0 = Inr 0 \<and> prob_r3_bottomup 7 1 = Inr 0"
  using boundary_zero_people [of 7] boundary_one_person [of 7] by simp

text \<open>From the target \<open>1\<close> on, the final layer of \<^verbatim>\<open>T_bottomup\<close> read with absent entries
  as \<open>0\<close> is the memoized \<^verbatim>\<open>T\<close>, and for every target \<open>n \<ge> 0\<close> the row of
  \<^verbatim>\<open>assoc_stirling_bottomup\<close> is the memoized \<^verbatim>\<open>assoc_stirling\<close> at every valid key.\<close>

lemma T_bottomup_agrees:
  assumes "0 \<le> m" "1 \<le> n"
  shows "entry (T_bottomup n m) (j, k) = fst (T j k n m None)"
  using T_rows_entry [OF assms(1), of "nat n" j k] assms(2)
  by (simp add: T_bottomup_rows T_fresh_value)

lemma assoc_stirling_bottomup_agrees:
  assumes "0 \<le> n" "0 \<le> k" "\<not> ((n \<le> 0 \<and> k > 0) \<or> (n > 0 \<and> k \<le> 0) \<or> n < 2 * k)"
  shows "\<exists>memo. assoc_stirling n k (Some Map.empty)
            = Some (Inr (entry (assoc_stirling_bottomup n) k, memo))"
proof -
  have k: "0 \<le> k" by (rule assms(2))
  have "S_memo_ok Map.empty" by (simp add: S_memo_ok_def)
  then obtain memo where
    a: "assoc_stirling n k (Some Map.empty) = Some (Inr (of_nat (S_val (nat n) (nat k)), memo))"
    using assoc_stirling_correct [OF assms(1) k] by blast
  have "entry (assoc_stirling_bottomup n) k = of_nat (S_val (nat n) (nat k))"
  proof (cases "2 \<le> n")
    case True
    then show ?thesis using k by (simp add: assoc_stirling_bottomup_rows S_rows_entry)
  next
    case False
    then have "n = 0 \<and> k = 0" using assms by linarith
    then show ?thesis by (simp add: assoc_stirling_bottomup_rows entry_def)
  qed
  with a show ?thesis by simp
qed

text \<open>
  Claim C4 says that at every target \<open>n \<ge> 0\<close> the final layer of \<^verbatim>\<open>T_bottomup\<close> agrees with
  the memoized \<^verbatim>\<open>T\<close> at every valid state.  At the target \<open>0\<close> the loop never runs and the
  function returns the empty \<^verbatim>\<open>curr\<close>, not \<^verbatim>\<open>prev\<close>: the valid state \<open>(0, 0, 0, 3)\<close> has no
  entry, read as \<open>0\<close>, while \<^verbatim>\<open>T\<close> returns \<open>1\<close>.
\<close>

theorem T_bottomup_at_target_zero:
  "T_bottomup 0 3 (0, 0) = None \<and> entry (T_bottomup 0 3) (0, 0) = 0 \<and> fst (T 0 0 0 3 None) = 1"
  by (simp add: T_bottomup_def entry_def T_fresh_value T_val_base)

end
